theory Spec2Isabelle
  imports Main "HOL-Library.Word"
begin

section \<open>The line solver of \<^verbatim>\<open>nonogram/inference.cc\<close>\<close>

text \<open>
  The class \<^verbatim>\<open>CInferenceEngine\<close> holds one line of a nonogram: the clue
  \<^verbatim>\<open>m_vecConst\<close> (a \<^verbatim>\<open>std::vector<unsigned int>\<close>), the cells
  \<^verbatim>\<open>m_vecCells\<close>, and the change flags \<^verbatim>\<open>m_bSelfChanged\<close> and
  \<^verbatim>\<open>m_vecChanged\<close>. The header that declares the class is not part of the
  sources; the member names and the three values of \<^verbatim>\<open>TriState\<close> are the ones
  the implementation file uses.

  Block lengths are 32-bit words, as in the source. Variables of type \<^verbatim>\<open>int\<close> are
  integers; where the source mixes \<^verbatim>\<open>int\<close> and \<^verbatim>\<open>unsigned int\<close> the
  arithmetic is done on 32-bit words (\<open>word_of_int\<close> converts to unsigned,
  \<open>sint\<close> converts back to \<^verbatim>\<open>int\<close>). A vector's \<^verbatim>\<open>size()\<close> stored in an
  \<^verbatim>\<open>int\<close> is taken to be the length of the list.

  A \<^verbatim>\<open>throw\<close> is the fault \<open>Thrown\<close>; an access outside an array, which the
  source does not check, is the fault \<open>OutOfBounds\<close>. \<open>Infer\<close> allocates
  \<^verbatim>\<open>pos\<close> with one entry for every block and the accumulator with one entry for
  every cell; the functions below it give \<open>OutOfBounds\<close> when they are handed
  shorter arrays. The length of \<^verbatim>\<open>m_vecChanged\<close> is declared in the missing
  header and is left open.
\<close>

datatype TriState = ts_dontknow | ts_true | ts_false

record CInferenceEngine =
  m_vecConst :: "32 word list"
  m_vecCells :: "TriState list"
  m_bSelfChanged :: bool
  m_vecChanged :: "bool list"

datatype fault = Thrown int | OutOfBounds

subsection \<open>Assign\<close>

text \<open>
  \<^verbatim>\<open>Assign(cell, newVal, cellIndex)\<close>: the reference \<^verbatim>\<open>cell\<close> is the index of
  the referenced element of \<^verbatim>\<open>m_vecCells\<close>.
\<close>

definition Assign ::
  "CInferenceEngine \<Rightarrow> nat \<Rightarrow> TriState \<Rightarrow> nat \<Rightarrow> fault + (bool \<times> CInferenceEngine)" where
  "Assign e cell newVal cellIndex =
     (if m_vecCells e ! cell \<noteq> newVal then
        if m_vecCells e ! cell \<noteq> ts_dontknow then Inl (Thrown (- 1))
        else if cellIndex < length (m_vecChanged e) then
          Inr (True, e\<lparr>m_vecCells := (m_vecCells e)[cell := newVal],
                       m_bSelfChanged := True,
                       m_vecChanged := (m_vecChanged e)[cellIndex := True]\<rparr>)
        else Inl OutOfBounds
      else Inr (False, e))"

subsection \<open>Accumulate\<close>

text \<open>The inner loop over \<^verbatim>\<open>j\<close>: marks the cells of one block in \<^verbatim>\<open>tmp\<close>.\<close>

function Accumulate_block :: "TriState list \<Rightarrow> int \<Rightarrow> int \<Rightarrow> 32 word \<Rightarrow> fault + TriState list" where
  "Accumulate_block tmp p j c =
     (if (word_of_int j :: 32 word) < c then
        if 0 \<le> p + j \<and> p + j < int (length tmp)
        then Accumulate_block (tmp[nat (p + j) := ts_true]) p (j + 1) c
        else Inl OutOfBounds
      else Inr tmp)"
  by pat_completeness auto
termination
  by (relation "measure (\<lambda>(tmp, p, j, c). nat (int (length tmp) - (p + j)))") auto

text \<open>The outer loop over the blocks \<^verbatim>\<open>i\<close>.\<close>

function Accumulate_blocks ::
  "32 word list \<Rightarrow> int list \<Rightarrow> nat \<Rightarrow> TriState list \<Rightarrow> fault + TriState list" where
  "Accumulate_blocks cs pos i tmp =
     (if i < length cs then
        if i < length pos then
          case Accumulate_block tmp (pos ! i) 0 (cs ! i) of
            Inl f \<Rightarrow> Inl f
          | Inr tmp' \<Rightarrow> Accumulate_blocks cs pos (i + 1) tmp'
        else Inl OutOfBounds
      else Inr tmp)"
  by pat_completeness auto
termination
  by (relation "measure (\<lambda>(cs, pos, i, tmp). length cs - i)") auto

text \<open>The last loop: the accumulator is overwritten the first time, narrowed afterwards.\<close>

function Accumulate_merge :: "bool \<Rightarrow> TriState list \<Rightarrow> nat \<Rightarrow> TriState list \<Rightarrow> TriState list" where
  "Accumulate_merge bFirst tmp i accumulator =
     (if i < length tmp then
        Accumulate_merge bFirst tmp (i + 1)
          (if bFirst then accumulator[i := tmp ! i]
           else if accumulator ! i \<noteq> tmp ! i then accumulator[i := ts_dontknow]
           else accumulator)
      else accumulator)"
  by pat_completeness auto
termination
  by (relation "measure (\<lambda>(bFirst, tmp, i, accumulator). length tmp - i)") auto

text \<open>
  The scratch data shared by the recursion: the array \<^verbatim>\<open>pos\<close>, the accumulator and
  the flag \<^verbatim>\<open>bFirst\<close>, all passed by pointer or reference in the source.
\<close>

type_synonym scratch = "int list \<times> TriState list \<times> bool"

fun Accumulate :: "CInferenceEngine \<Rightarrow> scratch \<Rightarrow> fault + scratch" where
  "Accumulate e (pos, accumulator, bFirst) =
     (if length accumulator < length (m_vecCells e) then Inl OutOfBounds
      else case Accumulate_blocks (m_vecConst e) pos 0
                  (replicate (length (m_vecCells e)) ts_false) of
             Inl f \<Rightarrow> Inl f
           | Inr tmp \<Rightarrow> Inr (pos, Accumulate_merge bFirst tmp 0 accumulator, False))"

subsection \<open>Enumerate\<close>

text \<open>The left-gap loop: is there a solid between the previous block and \<^verbatim>\<open>i\<close>?\<close>

function Enumerate_gap :: "TriState list \<Rightarrow> int \<Rightarrow> int \<Rightarrow> fault + bool" where
  "Enumerate_gap cells j i =
     (if j < i then
        if 0 \<le> j \<and> j < int (length cells) then
          if cells ! nat j = ts_true then Inr True else Enumerate_gap cells (j + 1) i
        else Inl OutOfBounds
      else Inr False)"
  by pat_completeness auto
termination
  by (relation "measure (\<lambda>(cells, j, i). nat (i - j))") auto

text \<open>
  The body loop; \<open>bound\<close> is \<^verbatim>\<open>i+m_vecConst[b]\<close>, an \<^verbatim>\<open>unsigned int\<close>, and
  \<^verbatim>\<open>j\<close> is converted to \<^verbatim>\<open>unsigned int\<close> for the comparison with it and to
  \<^verbatim>\<open>size_t\<close> for the comparison with \<^verbatim>\<open>m_vecCells.size()\<close>.
\<close>

function Enumerate_body :: "TriState list \<Rightarrow> int \<Rightarrow> 32 word \<Rightarrow> bool" where
  "Enumerate_body cells j bound =
     (if (word_of_int j :: 32 word) < bound then
        if j < 0 \<or> int (length cells) \<le> j \<or> cells ! nat j = ts_false then True
        else Enumerate_body cells (j + 1) bound
      else False)"
  by pat_completeness auto
termination
  by (relation "measure (\<lambda>(cells, j, bound). nat (int (length cells) - j))") auto

text \<open>The tail loop of the last block; \<^verbatim>\<open>j\<close> is compared as a \<^verbatim>\<open>size_t\<close>.\<close>

function Enumerate_tail :: "TriState list \<Rightarrow> int \<Rightarrow> bool" where
  "Enumerate_tail cells j =
     (if 0 \<le> j \<and> j < int (length cells) then
        if cells ! nat j = ts_true then True else Enumerate_tail cells (j + 1)
      else False)"
  by pat_completeness auto
termination
  by (relation "measure (\<lambda>(cells, j). nat (int (length cells) - j))") auto

text \<open>
  The two locals computed before the loop (lines 99 and 100): the sum is taken in
  \<^verbatim>\<open>unsigned int\<close> and stored in an \<^verbatim>\<open>int\<close>.
\<close>

definition Enumerate_start :: "CInferenceEngine \<Rightarrow> nat \<Rightarrow> int list \<Rightarrow> int" where
  "Enumerate_start e b pos =
     (if b = 0 then 0
      else sint (word_of_int (pos ! (b - 1)) + m_vecConst e ! (b - 1) + 1))"

definition Enumerate_prevSpaceStart :: "CInferenceEngine \<Rightarrow> nat \<Rightarrow> int list \<Rightarrow> int" where
  "Enumerate_prevSpaceStart e b pos =
     (if b = 0 then 0
      else sint (word_of_int (pos ! (b - 1)) + m_vecConst e ! (b - 1)))"

text \<open>
  The three checks of one loop iteration, in the order of the source; the result
  \<open>True\<close> stands for one of the three \<^verbatim>\<open>continue\<close> statements.
\<close>

definition Enumerate_checks :: "CInferenceEngine \<Rightarrow> nat \<Rightarrow> int \<Rightarrow> int \<Rightarrow> fault + bool" where
  "Enumerate_checks e b prevSpaceStart i =
     (case Enumerate_gap (m_vecCells e) prevSpaceStart i of
        Inl f \<Rightarrow> Inl f
      | Inr bViolatesSolid \<Rightarrow>
          if bViolatesSolid then Inr True
          else if Enumerate_body (m_vecCells e) i (word_of_int i + m_vecConst e ! b)
            then Inr True
          else if b = length (m_vecConst e) - 1 \<and>
                  Enumerate_tail (m_vecCells e) (sint (word_of_int i + m_vecConst e ! b))
            then Inr True
          else Inr False)"

text \<open>
  \<open>Enumerate\<close> is the function, \<open>Enumerate_for\<close> its loop over the start \<^verbatim>\<open>i\<close>
  of block \<^verbatim>\<open>b\<close>. The source reads \<^verbatim>\<open>m_vecConst[b]\<close> and writes
  \<^verbatim>\<open>pos[b]\<close> without a check: outside the arrays this is \<open>OutOfBounds\<close>.
\<close>

function Enumerate :: "CInferenceEngine \<Rightarrow> nat \<Rightarrow> scratch \<Rightarrow> fault + scratch"
  and Enumerate_for :: "CInferenceEngine \<Rightarrow> nat \<Rightarrow> int \<Rightarrow> int \<Rightarrow> scratch \<Rightarrow> fault + scratch"
where
  "Enumerate e b (pos, accumulator, bFirst) =
     (if b = length (m_vecConst e) then Accumulate e (pos, accumulator, bFirst)
      else if length (m_vecConst e) < b \<or> length pos \<le> b then Inl OutOfBounds
      else Enumerate_for e b (Enumerate_prevSpaceStart e b pos) (Enumerate_start e b pos)
             (pos, accumulator, bFirst))"
| "Enumerate_for e b prevSpaceStart i (pos, accumulator, bFirst) =
     (if length (m_vecConst e) \<le> b \<or> length pos \<le> b then Inl OutOfBounds
      else if i < int (length (m_vecCells e)) then
        (case Enumerate_checks e b prevSpaceStart i of
           Inl f \<Rightarrow> Inl f
         | Inr pruned \<Rightarrow>
             if pruned
             then Enumerate_for e b prevSpaceStart (i + 1) (pos[b := i], accumulator, bFirst)
             else (case Enumerate e (b + 1) (pos[b := i], accumulator, bFirst) of
                     Inl f \<Rightarrow> Inl f
                   | Inr st2 \<Rightarrow> Enumerate_for e b prevSpaceStart (i + 1) st2))
      else Inr (pos, accumulator, bFirst))"
  by pat_completeness auto
termination
  by (relation "measures
        [\<lambda>x. case x of Inl (e, b, st) \<Rightarrow> Suc (length (m_vecConst e)) - b
                      | Inr (e, b, p, i, st) \<Rightarrow> Suc (length (m_vecConst e)) - b,
         \<lambda>x. case x of Inl _ \<Rightarrow> 1 | Inr _ \<Rightarrow> 0,
         \<lambda>x. case x of Inl _ \<Rightarrow> 0
                      | Inr (e, b, p, i, st) \<Rightarrow> nat (int (length (m_vecCells e)) - i)]")
    auto

subsection \<open>Infer\<close>

text \<open>The loop that saves the inference output, from index \<^verbatim>\<open>i\<close> on.\<close>

function Infer_save ::
  "CInferenceEngine \<Rightarrow> TriState list \<Rightarrow> nat \<Rightarrow> nat \<Rightarrow> CInferenceEngine \<times> fault option" where
  "Infer_save e accumulator i count =
     (if i < count then
        if accumulator ! i \<noteq> ts_dontknow then
          case Assign e i (accumulator ! i) i of
            Inl f \<Rightarrow> (e, Some f)
          | Inr r \<Rightarrow> Infer_save (snd r) accumulator (i + 1) count
        else Infer_save e accumulator (i + 1) count
      else (e, None))"
  by pat_completeness auto
termination
  by (relation "measure (\<lambda>(e, accumulator, i, count). count - i)") auto

text \<open>
  \<open>Infer\<close> returns the status and the engine as the call leaves it. What is thrown
  inside the \<^verbatim>\<open>try\<close> block is caught and becomes the status \<open>-1\<close>; an access
  out of bounds is not an exception and is not caught. \<^verbatim>\<open>DebugPrint\<close> only prints
  and is left out.
\<close>

definition Infer :: "CInferenceEngine \<Rightarrow> fault + (int \<times> CInferenceEngine)" where
  "Infer e =
     (case Enumerate e 0 (replicate (length (m_vecConst e)) 0,
                          replicate (length (m_vecCells e)) ts_dontknow, True) of
        Inl (Thrown x) \<Rightarrow> Inr (- 1, e)
      | Inl OutOfBounds \<Rightarrow> Inl OutOfBounds
      | Inr (pos, accumulator, bFirst) \<Rightarrow>
          (case Infer_save e accumulator 0 (length (m_vecCells e)) of
             (e', None) \<Rightarrow> Inr (0, e')
           | (e', Some (Thrown x)) \<Rightarrow> Inr (- 1, e')
           | (e', Some OutOfBounds) \<Rightarrow> Inl OutOfBounds))"

text \<open>The recursive equations are unfolded by hand, one step at a time.\<close>

declare Accumulate_block.simps [simp del]
declare Accumulate_blocks.simps [simp del]
declare Accumulate_merge.simps [simp del]
declare Accumulate.simps [simp del]
declare Enumerate_gap.simps [simp del]
declare Enumerate_body.simps [simp del]
declare Enumerate_tail.simps [simp del]
declare Enumerate.simps [simp del]
declare Enumerate_for.simps [simp del]
declare Infer_save.simps [simp del]

section \<open>Enumerate with budgets\<close>

text \<open>
  The same function with two budgets, to state how deep the recursion goes and how
  often a loop runs: \<open>depth\<close> is the number of recursive calls that may still be
  nested, \<open>left\<close> the number of iterations the current loop may still make, starting
  from \<open>width\<close> in every call. The result is \<open>None\<close> when a budget is used up.
\<close>

function Enumerate_bounded ::
    "nat \<Rightarrow> nat \<Rightarrow> CInferenceEngine \<Rightarrow> nat \<Rightarrow> scratch \<Rightarrow> (fault + scratch) option"
  and Enumerate_for_bounded ::
    "nat \<Rightarrow> nat \<Rightarrow> nat \<Rightarrow> CInferenceEngine \<Rightarrow> nat \<Rightarrow> int \<Rightarrow> int \<Rightarrow> scratch \<Rightarrow>
     (fault + scratch) option"
where
  "Enumerate_bounded depth width e b (pos, accumulator, bFirst) =
     (if b = length (m_vecConst e) then Some (Accumulate e (pos, accumulator, bFirst))
      else if length (m_vecConst e) < b \<or> length pos \<le> b then Some (Inl OutOfBounds)
      else Enumerate_for_bounded depth width width e b
             (Enumerate_prevSpaceStart e b pos) (Enumerate_start e b pos)
             (pos, accumulator, bFirst))"
| "Enumerate_for_bounded depth width left e b prevSpaceStart i (pos, accumulator, bFirst) =
     (if length (m_vecConst e) \<le> b \<or> length pos \<le> b then Some (Inl OutOfBounds)
      else if i < int (length (m_vecCells e)) then
        (if left = 0 then None
         else case Enumerate_checks e b prevSpaceStart i of
           Inl f \<Rightarrow> Some (Inl f)
         | Inr pruned \<Rightarrow>
             if pruned
             then Enumerate_for_bounded depth width (left - 1) e b prevSpaceStart (i + 1)
                    (pos[b := i], accumulator, bFirst)
             else if depth = 0 then None
             else (case Enumerate_bounded (depth - 1) width e (b + 1)
                          (pos[b := i], accumulator, bFirst) of
                     None \<Rightarrow> None
                   | Some (Inl f) \<Rightarrow> Some (Inl f)
                   | Some (Inr st2) \<Rightarrow>
                       Enumerate_for_bounded depth width (left - 1) e b prevSpaceStart (i + 1)
                         st2))
      else Some (Inr (pos, accumulator, bFirst)))"
  by pat_completeness auto
termination
  by (relation "measures
        [\<lambda>x. case x of Inl (d, w, e, b, st) \<Rightarrow> d | Inr (d, w, l, e, b, p, i, st) \<Rightarrow> d,
         \<lambda>x. case x of Inl _ \<Rightarrow> 1 | Inr _ \<Rightarrow> 0,
         \<lambda>x. case x of Inl _ \<Rightarrow> 0 | Inr (d, w, l, e, b, p, i, st) \<Rightarrow> l]")
    auto

declare Enumerate_bounded.simps [simp del]
declare Enumerate_for_bounded.simps [simp del]

section \<open>The specification's placements\<close>

text \<open>
  The definitions of this section follow the words of the specification, not the
  code; the theorems compare the code with them.

  A placement gives the start index of every block. Block \<open>i\<close> fills the cells
  \<open>pos ! i, \<dots>, pos ! i + cs ! i - 1\<close>; \<open>spec_materialize\<close> is the placement as a full
  line, every covered cell filled and every other cell empty.
\<close>

definition spec_filled :: "32 word list \<Rightarrow> int list \<Rightarrow> nat \<Rightarrow> bool" where
  "spec_filled cs pos x =
     list_ex (\<lambda>i. pos ! i \<le> int x \<and> int x < pos ! i + uint (cs ! i)) [0..<length cs]"

definition spec_materialize :: "nat \<Rightarrow> 32 word list \<Rightarrow> int list \<Rightarrow> TriState list" where
  "spec_materialize n cs pos =
     map (\<lambda>x. if spec_filled cs pos x then ts_true else ts_false) [0..<n]"

text \<open>
  The fold step: the first line is taken as it is; afterwards a cell on which the
  line and the accumulator disagree becomes unknown.
\<close>

definition spec_fold :: "bool \<Rightarrow> TriState list \<Rightarrow> TriState list \<Rightarrow> TriState list" where
  "spec_fold first acc line =
     (if first then line
      else map (\<lambda>(a, t). if a \<noteq> t then ts_dontknow else a) (zip acc line))"

text \<open>
  A placement is geometrically valid when every start is a cell index, every block
  ends inside the line, and consecutive blocks are in order with at least one cell
  between them. It is consistent with the cells when its line agrees with every cell
  that is already known.
\<close>

definition spec_placement :: "32 word list \<Rightarrow> nat \<Rightarrow> int list \<Rightarrow> bool" where
  "spec_placement cs n pos \<longleftrightarrow>
     length pos = length cs \<and>
     (\<forall>i<length cs. 0 \<le> pos ! i \<and> pos ! i < int n \<and> pos ! i + uint (cs ! i) \<le> int n) \<and>
     (\<forall>i. Suc i < length cs \<longrightarrow> pos ! i + uint (cs ! i) + 1 \<le> pos ! Suc i)"

definition spec_consistent :: "TriState list \<Rightarrow> TriState list \<Rightarrow> bool" where
  "spec_consistent cells line \<longleftrightarrow>
     (\<forall>x<length cells. cells ! x = ts_dontknow \<or> cells ! x = line ! x)"

definition spec_valid :: "TriState list \<Rightarrow> 32 word list \<Rightarrow> int list \<Rightarrow> bool" where
  "spec_valid cells cs pos \<longleftrightarrow>
     spec_placement cs (length cells) pos \<and>
     spec_consistent cells (spec_materialize (length cells) cs pos)"

text \<open>
  The intersection over all valid placements: a cell is forced to a value when at
  least one valid placement exists and every valid placement gives the cell that
  value. Without a valid placement nothing is forced.
\<close>

definition spec_forced :: "TriState list \<Rightarrow> 32 word list \<Rightarrow> nat \<Rightarrow> TriState" where
  "spec_forced cells cs x =
     (if \<not> (\<exists>pos. spec_valid cells cs pos) then ts_dontknow
      else if \<forall>pos. spec_valid cells cs pos \<longrightarrow>
                 spec_materialize (length cells) cs pos ! x = ts_true then ts_true
      else if \<forall>pos. spec_valid cells cs pos \<longrightarrow>
                 spec_materialize (length cells) cs pos ! x = ts_false then ts_false
      else ts_dontknow)"

section \<open>Sizes that fit an int\<close>

text \<open>
  The source keeps indices in \<^verbatim>\<open>int\<close> and adds block lengths to them in
  \<^verbatim>\<open>unsigned int\<close>. Nothing wraps around when the line has fewer than
  \<open>2\<^sup>3\<^sup>1 - 1\<close> cells and every block length is below \<open>2\<^sup>3\<^sup>1\<close>.
\<close>

definition fits_int :: "CInferenceEngine \<Rightarrow> bool" where
  "fits_int e \<longleftrightarrow>
     int (length (m_vecCells e)) < 2 ^ 31 - 1 \<and> int (length (m_vecConst e)) < 2 ^ 31 \<and>
     (\<forall>c \<in> set (m_vecConst e). uint c < 2 ^ 31)"

section \<open>What the enumeration visits\<close>

text \<open>
  The checks of one loop iteration, without machine arithmetic: \<open>block_ok\<close> holds
  when block \<open>b\<close> may start at \<open>i\<close>, the previous block ending at \<open>lo\<close>.
\<close>

definition prev_end :: "32 word list \<Rightarrow> nat \<Rightarrow> int list \<Rightarrow> int" where
  "prev_end cs b pos = (if b = 0 then 0 else pos ! (b - 1) + uint (cs ! (b - 1)))"

definition min_start :: "32 word list \<Rightarrow> nat \<Rightarrow> int list \<Rightarrow> int" where
  "min_start cs b pos = (if b = 0 then 0 else pos ! (b - 1) + uint (cs ! (b - 1)) + 1)"

definition block_ok :: "TriState list \<Rightarrow> 32 word list \<Rightarrow> nat \<Rightarrow> int \<Rightarrow> int \<Rightarrow> bool" where
  "block_ok cells cs b lo i \<longleftrightarrow>
     (\<forall>x. lo \<le> x \<and> x < i \<longrightarrow> cells ! nat x \<noteq> ts_true) \<and>
     i + uint (cs ! b) \<le> int (length cells) \<and>
     (\<forall>x. i \<le> x \<and> x < i + uint (cs ! b) \<longrightarrow> cells ! nat x \<noteq> ts_false) \<and>
     (b = length cs - 1 \<longrightarrow>
        (\<forall>x. i + uint (cs ! b) \<le> x \<and> x < int (length cells) \<longrightarrow> cells ! nat x \<noteq> ts_true))"

definition step_ok :: "TriState list \<Rightarrow> 32 word list \<Rightarrow> int list \<Rightarrow> nat \<Rightarrow> bool" where
  "step_ok cells cs p b \<longleftrightarrow>
     min_start cs b p \<le> p ! b \<and> p ! b < int (length cells) \<and>
     block_ok cells cs b (prev_end cs b p) (p ! b)"

text \<open>
  \<open>reach cells cs b pos\<close> are the complete placements that \<open>Enumerate\<close> hands to
  \<open>Accumulate\<close> when it is called for block \<open>b\<close> with the first \<open>b\<close> entries of
  \<open>pos\<close> fixed.
\<close>

definition reach :: "TriState list \<Rightarrow> 32 word list \<Rightarrow> nat \<Rightarrow> int list \<Rightarrow> int list set" where
  "reach cells cs b pos =
     {p. length p = length cs \<and> take b p = take b pos \<and>
         (\<forall>b'. b \<le> b' \<and> b' < length cs \<longrightarrow> step_ok cells cs p b')}"

text \<open>
  The accumulator and the flag \<^verbatim>\<open>bFirst\<close> after a set of lines has been folded
  into them, in any order.
\<close>

definition narrow_cell :: "bool \<Rightarrow> TriState \<Rightarrow> TriState list set \<Rightarrow> nat \<Rightarrow> TriState" where
  "narrow_cell first a L x =
     (if (first \<or> a = ts_true) \<and> (\<forall>l\<in>L. l ! x = ts_true) then ts_true
      else if (first \<or> a = ts_false) \<and> (\<forall>l\<in>L. l ! x = ts_false) then ts_false
      else ts_dontknow)"

definition narrow :: "TriState list \<times> bool \<Rightarrow> TriState list set \<Rightarrow> TriState list \<times> bool" where
  "narrow s L =
     (if L = {} then s
      else (map (\<lambda>x. narrow_cell (snd s) (fst s ! x) L x) [0..<length (fst s)], False))"

definition folded ::
  "CInferenceEngine \<Rightarrow> TriState list \<times> bool \<Rightarrow> int list set \<Rightarrow> TriState list \<times> bool" where
  "folded e s P = narrow s (spec_materialize (length (m_vecCells e)) (m_vecConst e) ` P)"

section \<open>Faults\<close>

text \<open>Nothing below \<open>Infer\<close> throws except \<open>Assign\<close>.\<close>

lemma Accumulate_block_fault: "Accumulate_block tmp p j c = Inl f \<Longrightarrow> f = OutOfBounds"
  by (induction tmp p j c rule: Accumulate_block.induct)
     (subst (asm) Accumulate_block.simps, auto split: if_splits)

lemma Accumulate_blocks_fault: "Accumulate_blocks cs pos i tmp = Inl f \<Longrightarrow> f = OutOfBounds"
  by (induction cs pos i tmp rule: Accumulate_blocks.induct)
     (subst (asm) Accumulate_blocks.simps,
      auto split: if_splits sum.splits dest: Accumulate_block_fault)

lemma Accumulate_fault: "Accumulate e st = Inl f \<Longrightarrow> f = OutOfBounds"
  by (cases st) (auto simp: Accumulate.simps split: if_splits sum.splits
           dest: Accumulate_blocks_fault)

lemma Enumerate_gap_fault: "Enumerate_gap cells j i = Inl f \<Longrightarrow> f = OutOfBounds"
  by (induction cells j i rule: Enumerate_gap.induct)
     (subst (asm) Enumerate_gap.simps, auto split: if_splits)

lemma Enumerate_checks_fault: "Enumerate_checks e b p i = Inl f \<Longrightarrow> f = OutOfBounds"
  by (auto simp: Enumerate_checks_def split: sum.splits if_splits dest: Enumerate_gap_fault)

lemma Enumerate_fault:
  "Enumerate e b st = Inl f \<Longrightarrow> f = OutOfBounds"
  "Enumerate_for e b p i st = Inl f \<Longrightarrow> f = OutOfBounds"
proof (induction e b st and e b p i st rule: Enumerate_Enumerate_for.induct)
  case (1 e b pos accumulator bFirst)
  from "1.prems" "1.IH" show ?case
    by (auto simp: Enumerate.simps[of e b] split: if_splits dest: Accumulate_fault)
next
  case (2 e b prevSpaceStart i pos accumulator bFirst)
  from "2.prems" "2.IH" show ?case
    by (auto simp: Enumerate_for.simps[of e b prevSpaceStart i]
             split: if_splits sum.splits dest: Enumerate_checks_fault)
qed

lemma Infer_InrD:
  assumes "Infer e = Inr (status, e')"
  shows "\<exists>pos acc bf r. Enumerate e 0 (replicate (length (m_vecConst e)) 0,
              replicate (length (m_vecCells e)) ts_dontknow, True) = Inr (pos, acc, bf) \<and>
            Infer_save e acc 0 (length (m_vecCells e)) = (e', r) \<and>
            (r = None \<and> status = 0 \<or> (\<exists>x. r = Some (Thrown x)) \<and> status = - 1)"
  using assms Enumerate_fault(1)[of e 0]
  by (auto simp: Infer_def split: sum.splits fault.splits prod.splits option.splits)

section \<open>The loop that saves the output\<close>

lemma Assign_cases:
  assumes "v \<noteq> ts_dontknow"
  shows "(m_vecCells e ! i = v \<and> Assign e i v idx = Inr (False, e)) \<or>
         (m_vecCells e ! i \<noteq> v \<and> m_vecCells e ! i \<noteq> ts_dontknow \<and>
            Assign e i v idx = Inl (Thrown (- 1))) \<or>
         (m_vecCells e ! i = ts_dontknow \<and> \<not> idx < length (m_vecChanged e) \<and>
            Assign e i v idx = Inl OutOfBounds) \<or>
         (m_vecCells e ! i = ts_dontknow \<and> idx < length (m_vecChanged e) \<and>
            Assign e i v idx = Inr (True, e\<lparr>m_vecCells := (m_vecCells e)[i := v],
                       m_bSelfChanged := True,
                       m_vecChanged := (m_vecChanged e)[idx := True]\<rparr>))"
  using assms by (auto simp: Assign_def)

lemma Infer_save_induct [consumes 1, case_names stop skip conflict store]:
  assumes run: "Infer_save e acc i count = (e', r)"
    and stop: "\<And>e i. \<not> i < count \<Longrightarrow> P e i e None"
    and skip: "\<And>e i e' r. i < count \<Longrightarrow> acc ! i = ts_dontknow \<or> m_vecCells e ! i = acc ! i \<Longrightarrow>
                 Infer_save e acc (i + 1) count = (e', r) \<Longrightarrow> P e (i + 1) e' r \<Longrightarrow> P e i e' r"
    and conflict: "\<And>e i f. i < count \<Longrightarrow> acc ! i \<noteq> ts_dontknow \<Longrightarrow>
                 Assign e i (acc ! i) i = Inl f \<Longrightarrow> P e i e (Some f)"
    and store: "\<And>e i e1 e' r. i < count \<Longrightarrow> acc ! i \<noteq> ts_dontknow \<Longrightarrow>
                 m_vecCells e ! i = ts_dontknow \<Longrightarrow> i < length (m_vecChanged e) \<Longrightarrow>
                 e1 = e\<lparr>m_vecCells := (m_vecCells e)[i := acc ! i], m_bSelfChanged := True,
                        m_vecChanged := (m_vecChanged e)[i := True]\<rparr> \<Longrightarrow>
                 Infer_save e1 acc (i + 1) count = (e', r) \<Longrightarrow> P e1 (i + 1) e' r \<Longrightarrow> P e i e' r"
  shows "P e i e' r"
proof -
  have "Infer_save e a i c = (e', r) \<Longrightarrow> a = acc \<Longrightarrow> c = count \<Longrightarrow> P e i e' r" for a c
  proof (induction e a i c arbitrary: e' r rule: Infer_save.induct)
  case (1 e a i c)
  note eq = Infer_save.simps[of e acc i count]
  note prems = "1.prems"(1)[unfolded "1.prems"(2,3)]
  note IH = "1.IH"[unfolded "1.prems"(2,3)]
  show ?case
  proof (cases "i < count")
    case False
    with prems eq have "e' = e" "r = None" by simp_all
    with stop[OF False] show ?thesis by simp
  next
    case lt: True
    show ?thesis
    proof (cases "acc ! i = ts_dontknow")
      case True
      with lt prems eq have rec: "Infer_save e acc (i + 1) count = (e', r)" by simp
      from IH(2) lt True rec have "P e (i + 1) e' r" by simp
      from skip[OF lt _ rec this] True show ?thesis by simp
    next
      case nd: False
      from Assign_cases[OF nd, of e i i]
      consider (same) "m_vecCells e ! i = acc ! i" "Assign e i (acc ! i) i = Inr (False, e)"
        | (bad) f where "Assign e i (acc ! i) i = Inl f"
        | (upd) "m_vecCells e ! i = ts_dontknow" "i < length (m_vecChanged e)"
            "Assign e i (acc ! i) i = Inr (True, e\<lparr>m_vecCells := (m_vecCells e)[i := acc ! i],
                       m_bSelfChanged := True, m_vecChanged := (m_vecChanged e)[i := True]\<rparr>)"
        by blast
      then show ?thesis
      proof cases
        case same
        with lt nd prems eq have rec: "Infer_save e acc (i + 1) count = (e', r)" by simp
        from IH(1)[OF lt nd same(2)] rec have "P e (i + 1) e' r" by simp
        from skip[OF lt _ rec this] same show ?thesis by simp
      next
        case bad
        with lt nd prems eq have "e' = e" "r = Some f" by simp_all
        with conflict[OF lt nd bad] show ?thesis by simp
      next
        case upd
        let ?e1 = "e\<lparr>m_vecCells := (m_vecCells e)[i := acc ! i],
                       m_bSelfChanged := True, m_vecChanged := (m_vecChanged e)[i := True]\<rparr>"
        from upd lt nd prems eq have rec: "Infer_save ?e1 acc (i + 1) count = (e', r)" by simp
        from IH(1)[OF lt nd upd(3)] rec have "P ?e1 (i + 1) e' r" by simp
        from store[OF lt nd upd(1,2) refl rec this] show ?thesis .
      qed
    qed
  qed
  qed
  from this[OF run refl refl] show ?thesis .
qed

lemma Infer_save_frame:
  assumes "Infer_save e acc i count = (e', r)"
  shows "m_vecConst e' = m_vecConst e \<and> length (m_vecCells e') = length (m_vecCells e) \<and>
         length (m_vecChanged e') = length (m_vecChanged e)"
  using assms by (induction rule: Infer_save_induct) simp_all

lemma Infer_save_cells:
  assumes "Infer_save e acc i count = (e', r)"
  shows "m_vecCells e' ! x = m_vecCells e ! x \<or>
         (m_vecCells e ! x = ts_dontknow \<and> acc ! x \<noteq> ts_dontknow \<and>
          m_vecCells e' ! x = acc ! x \<and> i \<le> x \<and> x < count)"
  using assms
proof (induction rule: Infer_save_induct)
  case (store e i e1 e' r)
  show ?case
  proof (cases "x = i")
    case True
    with store show ?thesis
      by (cases "i < length (m_vecCells e)") (auto simp: list_update_beyond)
  next
    case False
    with store show ?thesis by auto
  qed
qed auto

lemma Infer_save_None:
  assumes "Infer_save e acc i count = (e', None)" and "count \<le> length (m_vecCells e)"
    and "i \<le> x" and "x < count" and "acc ! x \<noteq> ts_dontknow"
  shows "m_vecCells e' ! x = acc ! x"
proof -
  have "r = None \<longrightarrow> count \<le> length (m_vecCells e) \<longrightarrow> i \<le> x \<longrightarrow> m_vecCells e' ! x = acc ! x"
    if "Infer_save e acc i count = (e', r)" for r
    using that
  proof (induction rule: Infer_save_induct)
    case (stop e i)
    with assms(4) show ?case by simp
  next
    case (skip e i e' r)
    from Infer_save_cells[OF skip(3), of x] skip assms(5) show ?case
      by (cases "x = i") auto
  next
    case (conflict e i f)
    then show ?case by simp
  next
    case (store e i e1 e' r)
    from Infer_save_cells[OF store(6), of x] store assms(4) show ?case
      by (cases "x = i") auto
  qed
  with assms show ?thesis by blast
qed

lemma Infer_save_Some:
  assumes "Infer_save e acc i count = (e', Some f)" and "count \<le> length (m_vecCells e)"
  shows "\<exists>c. i \<le> c \<and> c < count \<and> acc ! c \<noteq> ts_dontknow \<and> m_vecCells e ! c \<noteq> acc ! c \<and>
           (f = Thrown (- 1) \<and> m_vecCells e ! c \<noteq> ts_dontknow \<or>
            f = OutOfBounds \<and> m_vecCells e ! c = ts_dontknow \<and> \<not> c < length (m_vecChanged e)) \<and>
           (\<forall>x. c \<le> x \<longrightarrow> m_vecCells e' ! x = m_vecCells e ! x) \<and>
           (\<forall>x. i \<le> x \<and> x < c \<and> acc ! x \<noteq> ts_dontknow \<longrightarrow> m_vecCells e' ! x = acc ! x)"
    (is "?Q e i e' f")
proof -
  have "r = Some f \<longrightarrow> count \<le> length (m_vecCells e) \<longrightarrow> ?Q e i e' f"
    if "Infer_save e acc i count = (e', r)" for r
    using that
  proof (induction rule: Infer_save_induct)
    case (stop e i)
    show ?case by simp
  next
    case (skip e i e' r)
    show ?case
    proof (intro impI)
      assume r: "r = Some f" and le: "count \<le> length (m_vecCells e)"
      with skip(4) obtain c where c: "i + 1 \<le> c" "c < count" "acc ! c \<noteq> ts_dontknow"
        "m_vecCells e ! c \<noteq> acc ! c"
        "f = Thrown (- 1) \<and> m_vecCells e ! c \<noteq> ts_dontknow \<or>
            f = OutOfBounds \<and> m_vecCells e ! c = ts_dontknow \<and> \<not> c < length (m_vecChanged e)"
        "\<forall>x. c \<le> x \<longrightarrow> m_vecCells e' ! x = m_vecCells e ! x"
        "\<forall>x. i + 1 \<le> x \<and> x < c \<and> acc ! x \<noteq> ts_dontknow \<longrightarrow> m_vecCells e' ! x = acc ! x"
        by blast
      have "m_vecCells e' ! x = acc ! x" if "i \<le> x" "x < c" "acc ! x \<noteq> ts_dontknow" for x
      proof (cases "x = i")
        case True
        with Infer_save_cells[OF skip(3), of i] skip(2) that show ?thesis by auto
      next
        case False
        with that c(7) show ?thesis by simp
      qed
      with c show "?Q e i e' f"
        by (intro exI[of _ c]) auto
    qed
  next
    case (conflict e i f')
    show ?case
    proof (intro impI)
      assume r: "Some f' = Some f" and le: "count \<le> length (m_vecCells e)"
      from Assign_cases[OF conflict(2), of e i i] conflict(2,3) r
      have "m_vecCells e ! i \<noteq> acc ! i \<and>
           (f = Thrown (- 1) \<and> m_vecCells e ! i \<noteq> ts_dontknow \<or>
            f = OutOfBounds \<and> m_vecCells e ! i = ts_dontknow \<and> \<not> i < length (m_vecChanged e))"
        by auto
      with conflict show "?Q e i e f"
        by (intro exI[of _ i]) auto
    qed
  next
    case (store e i e1 e' r)
    show ?case
    proof (intro impI)
      assume r: "r = Some f" and le: "count \<le> length (m_vecCells e)"
      have le1: "count \<le> length (m_vecCells e1)" using le store(5) by simp
      with store(7) r obtain c where c: "i + 1 \<le> c" "c < count" "acc ! c \<noteq> ts_dontknow"
        "m_vecCells e1 ! c \<noteq> acc ! c"
        "f = Thrown (- 1) \<and> m_vecCells e1 ! c \<noteq> ts_dontknow \<or>
            f = OutOfBounds \<and> m_vecCells e1 ! c = ts_dontknow \<and> \<not> c < length (m_vecChanged e1)"
        "\<forall>x. c \<le> x \<longrightarrow> m_vecCells e' ! x = m_vecCells e1 ! x"
        "\<forall>x. i + 1 \<le> x \<and> x < c \<and> acc ! x \<noteq> ts_dontknow \<longrightarrow> m_vecCells e' ! x = acc ! x"
        by blast
      have far: "m_vecCells e1 ! x = m_vecCells e ! x" if "x \<noteq> i" for x
        using that store(5) by simp
      have here: "m_vecCells e' ! i = acc ! i"
        using Infer_save_cells[OF store(6), of i] store(5) store(1) le by auto
      have "m_vecCells e' ! x = acc ! x" if "i \<le> x" "x < c" "acc ! x \<noteq> ts_dontknow" for x
        using that here c(7) by (cases "x = i") auto
      moreover have "\<forall>x. c \<le> x \<longrightarrow> m_vecCells e' ! x = m_vecCells e ! x"
        using c(1,6) far by auto
      moreover have "m_vecCells e ! c \<noteq> acc ! c"
        "f = Thrown (- 1) \<and> m_vecCells e ! c \<noteq> ts_dontknow \<or>
            f = OutOfBounds \<and> m_vecCells e ! c = ts_dontknow \<and> \<not> c < length (m_vecChanged e)"
        using c(1,4,5) far[of c] store(5) by auto
      ultimately show "?Q e i e' f" using c(1,2,3)
        by (intro exI[of _ c]) auto
    qed
  qed
  with assms show ?thesis by blast
qed

lemma Infer_save_flags:
  assumes "Infer_save e acc i count = (e', r)" and "count \<le> length (m_vecCells e)"
  shows "(\<forall>x < length (m_vecChanged e).
            m_vecChanged e' ! x = (m_vecChanged e ! x \<or> m_vecCells e' ! x \<noteq> m_vecCells e ! x)) \<and>
         (m_bSelfChanged e' = (m_bSelfChanged e \<or> m_vecCells e' \<noteq> m_vecCells e)) \<and>
         (\<forall>x. m_vecCells e' ! x \<noteq> m_vecCells e ! x \<longrightarrow> x < length (m_vecChanged e))"
    (is "?F e e'")
proof -
  have "count \<le> length (m_vecCells e) \<longrightarrow> ?F e e'"
    using assms(1)
  proof (induction rule: Infer_save_induct)
    case (store e i e1 e' r)
    show ?case
    proof
      assume le: "count \<le> length (m_vecCells e)"
      have iN: "i < length (m_vecCells e)" using le store(1) by simp
      have F1: "?F e1 e'" using store(7) le store(5) by simp
      have at_i: "m_vecCells e' ! i = acc ! i"
        using Infer_save_cells[OF store(6), of i] store(5) iN by auto
      have diff: "m_vecCells e' ! i \<noteq> m_vecCells e ! i" using at_i store(2,3) by simp
      have neq: "m_vecCells e' \<noteq> m_vecCells e" using diff by auto
      have other: "m_vecCells e1 ! x = m_vecCells e ! x" if "x \<noteq> i" for x
        using that store(5) by simp
      have ch: "m_vecChanged e1 ! x = (if x = i then True else m_vecChanged e ! x)"
        if "x < length (m_vecChanged e)" for x
        using that store(5) by (simp add: nth_list_update)
      have len: "length (m_vecChanged e1) = length (m_vecChanged e)" using store(5) by simp
      have "m_vecChanged e' ! x = (m_vecChanged e ! x \<or> m_vecCells e' ! x \<noteq> m_vecCells e ! x)"
        if "x < length (m_vecChanged e)" for x
      proof (cases "x = i")
        case True
        from F1 that len have "m_vecChanged e' ! x = (m_vecChanged e1 ! x \<or> m_vecCells e' ! x \<noteq> m_vecCells e1 ! x)"
          by simp
        with True ch[OF that] diff show ?thesis by simp
      next
        case False
        from F1 that len have "m_vecChanged e' ! x = (m_vecChanged e1 ! x \<or> m_vecCells e' ! x \<noteq> m_vecCells e1 ! x)"
          by simp
        with False ch[OF that] other[OF False] show ?thesis by simp
      qed
      moreover have "m_bSelfChanged e' = (m_bSelfChanged e \<or> m_vecCells e' \<noteq> m_vecCells e)"
        using F1 neq store(5) by simp
      moreover have "x < length (m_vecChanged e)" if "m_vecCells e' ! x \<noteq> m_vecCells e ! x" for x
      proof (cases "x = i")
        case True
        with store(4) show ?thesis by simp
      next
        case False
        with that other have "m_vecCells e' ! x \<noteq> m_vecCells e1 ! x" by simp
        with F1 len show ?thesis by simp
      qed
      ultimately show "?F e e'" by blast
    qed
  qed auto
  with assms(2) show ?thesis by blast
qed

section \<open>Conversions between int and unsigned int\<close>

lemma u32_of_int: "0 \<le> j \<Longrightarrow> j < 2 ^ 32 \<Longrightarrow> uint (word_of_int j :: 32 word) = j"
  by (simp add: uint_word_of_int take_bit_eq_mod)

lemma word_of_int_add_uint: "(word_of_int i + c :: 32 word) = word_of_int (i + uint c)"
  by simp

lemma u32_add: "0 \<le> i \<Longrightarrow> i + uint c < 2 ^ 32 \<Longrightarrow> uint (word_of_int i + c :: 32 word) = i + uint c"
proof -
  assume a: "0 \<le> i" "i + uint c < 2 ^ 32"
  have "0 \<le> uint c" by simp
  with a have "0 \<le> i + uint c" by linarith
  from u32_of_int[OF this a(2)] show ?thesis unfolding word_of_int_add_uint .
qed

lemma u32_less_add:
  assumes "0 \<le> j" "j < 2 ^ 32" "0 \<le> i" "i + uint c < 2 ^ 32"
  shows "((word_of_int j :: 32 word) < word_of_int i + c) = (j < i + uint c)"
  by (simp only: word_less_def u32_of_int[OF assms(1,2)] u32_add[OF assms(3,4)])

lemma u32_less:
  assumes "0 \<le> j" "j < 2 ^ 32"
  shows "((word_of_int j :: 32 word) < c) = (j < uint c)"
  by (simp only: word_less_def u32_of_int[OF assms])

lemma s32_of_int: "- (2 ^ 31) \<le> k \<Longrightarrow> k < 2 ^ 31 \<Longrightarrow> sint (word_of_int k :: 32 word) = k"
  by (simp add: sint_sbintrunc' signed_take_bit_int_eq_self)

lemma s32_add:
  assumes "0 \<le> i" "i + uint c < 2 ^ 31"
  shows "sint (word_of_int i + c :: 32 word) = i + uint c"
proof -
  have "0 \<le> uint c" by simp
  with assms have "- (2 ^ 31) \<le> i + uint c" "i + uint c < 2 ^ 31" by linarith+
  then show ?thesis unfolding word_of_int_add_uint by (rule s32_of_int)
qed

lemma s32_add1:
  assumes "0 \<le> i" "i + uint c + 1 < 2 ^ 31"
  shows "sint (word_of_int i + c + 1 :: 32 word) = i + uint c + 1"
proof -
  have eq: "(word_of_int i + c + 1 :: 32 word) = word_of_int (i + uint c + 1)" by simp
  have "0 \<le> uint c" by simp
  with assms have "- (2 ^ 31) \<le> i + uint c + 1" "i + uint c + 1 < 2 ^ 31" by linarith+
  then show ?thesis unfolding eq by (rule s32_of_int)
qed

section \<open>The three checks\<close>

lemma Enumerate_gap_eq:
  "0 \<le> j \<Longrightarrow> i \<le> int (length cells) \<Longrightarrow>
   Enumerate_gap cells j i = Inr (\<exists>x. j \<le> x \<and> x < i \<and> cells ! nat x = ts_true)"
proof (induction cells j i rule: Enumerate_gap.induct)
  case (1 cells j i)
  note eq = Enumerate_gap.simps[of cells j i]
  show ?case
  proof (cases "j < i")
    case False
    then show ?thesis using eq by auto
  next
    case lt: True
    show ?thesis
    proof (cases "cells ! nat j = ts_true")
      case True
      with lt "1.prems" eq show ?thesis by auto
    next
      case False
      from lt "1.prems" have rng: "0 \<le> j \<and> j < int (length cells)" by simp
      from "1.IH"[OF lt rng False] "1.prems"
      have ih: "Enumerate_gap cells (j + 1) i = Inr (\<exists>x. j + 1 \<le> x \<and> x < i \<and> cells ! nat x = ts_true)"
        by simp
      have "(\<exists>x. j + 1 \<le> x \<and> x < i \<and> cells ! nat x = ts_true) =
            (\<exists>x. j \<le> x \<and> x < i \<and> cells ! nat x = ts_true)"
      proof
        assume "\<exists>x. j + 1 \<le> x \<and> x < i \<and> cells ! nat x = ts_true"
        then obtain x where "j + 1 \<le> x \<and> x < i \<and> cells ! nat x = ts_true" ..
        then have "j \<le> x \<and> x < i \<and> cells ! nat x = ts_true" by simp
        then show "\<exists>x. j \<le> x \<and> x < i \<and> cells ! nat x = ts_true" ..
      next
        assume "\<exists>x. j \<le> x \<and> x < i \<and> cells ! nat x = ts_true"
        then obtain x where x: "j \<le> x \<and> x < i \<and> cells ! nat x = ts_true" ..
        with False have "x \<noteq> j" by auto
        with x have "j + 1 \<le> x \<and> x < i \<and> cells ! nat x = ts_true" by simp
        then show "\<exists>x. j + 1 \<le> x \<and> x < i \<and> cells ! nat x = ts_true" ..
      qed
      with ih lt rng False eq show ?thesis by simp
    qed
  qed
qed

lemma Enumerate_tail_eq:
  "0 \<le> j \<Longrightarrow>
   Enumerate_tail cells j = (\<exists>x. j \<le> x \<and> x < int (length cells) \<and> cells ! nat x = ts_true)"
proof (induction cells j rule: Enumerate_tail.induct)
  case (1 cells j)
  note eq = Enumerate_tail.simps[of cells j]
  show ?case
  proof (cases "j < int (length cells)")
    case False
    then show ?thesis using eq by auto
  next
    case lt: True
    show ?thesis
    proof (cases "cells ! nat j = ts_true")
      case True
      with lt "1.prems" eq show ?thesis by auto
    next
      case False
      from lt "1.prems" have rng: "0 \<le> j \<and> j < int (length cells)" by simp
      from "1.IH"[OF rng False] "1.prems"
      have ih: "Enumerate_tail cells (j + 1) =
          (\<exists>x. j + 1 \<le> x \<and> x < int (length cells) \<and> cells ! nat x = ts_true)"
        by simp
      have "(\<exists>x. j + 1 \<le> x \<and> x < int (length cells) \<and> cells ! nat x = ts_true) =
            (\<exists>x. j \<le> x \<and> x < int (length cells) \<and> cells ! nat x = ts_true)"
      proof
        assume "\<exists>x. j + 1 \<le> x \<and> x < int (length cells) \<and> cells ! nat x = ts_true"
        then obtain x where "j + 1 \<le> x \<and> x < int (length cells) \<and> cells ! nat x = ts_true" ..
        then have "j \<le> x \<and> x < int (length cells) \<and> cells ! nat x = ts_true" by simp
        then show "\<exists>x. j \<le> x \<and> x < int (length cells) \<and> cells ! nat x = ts_true" ..
      next
        assume "\<exists>x. j \<le> x \<and> x < int (length cells) \<and> cells ! nat x = ts_true"
        then obtain x where x: "j \<le> x \<and> x < int (length cells) \<and> cells ! nat x = ts_true" ..
        with False have "x \<noteq> j" by auto
        with x have "j + 1 \<le> x \<and> x < int (length cells) \<and> cells ! nat x = ts_true" by simp
        then show "\<exists>x. j + 1 \<le> x \<and> x < int (length cells) \<and> cells ! nat x = ts_true" ..
      qed
      with ih rng False eq show ?thesis by simp
    qed
  qed
qed

lemma Enumerate_body_eq:
  "0 \<le> j \<Longrightarrow> j \<le> int (length cells) \<Longrightarrow> int (length cells) < 2 ^ 31 \<Longrightarrow>
   Enumerate_body cells j bound =
     (j < uint bound \<and>
      (int (length cells) < uint bound \<or>
       (\<exists>x. j \<le> x \<and> x < uint bound \<and> cells ! nat x = ts_false)))"
proof (induction cells j bound rule: Enumerate_body.induct)
  case (1 cells j bound)
  from "1.prems" have j32: "j < 2 ^ 32" by simp
  note eq = Enumerate_body.simps[of cells j bound, unfolded u32_less[OF "1.prems"(1) j32]]
  show ?case
  proof (cases "j < uint bound")
    case False
    then show ?thesis using eq by simp
  next
    case lt: True
    show ?thesis
    proof (cases "j < 0 \<or> int (length cells) \<le> j \<or> cells ! nat j = ts_false")
      case True
      with lt eq have l: "Enumerate_body cells j bound" by simp
      from True "1.prems" lt
      have "int (length cells) < uint bound \<or>
              (\<exists>x. j \<le> x \<and> x < uint bound \<and> cells ! nat x = ts_false)"
        by auto
      with l lt show ?thesis by simp
    next
      case False
      from lt have w: "(word_of_int j :: 32 word) < bound"
        using u32_less[OF "1.prems"(1) j32] by simp
      from False "1.prems" have p: "0 \<le> j + 1" "j + 1 \<le> int (length cells)" by simp_all
      from "1.IH"[OF w False p "1.prems"(3)]
      have ih: "Enumerate_body cells (j + 1) bound =
         (j + 1 < uint bound \<and>
          (int (length cells) < uint bound \<or>
           (\<exists>x. j + 1 \<le> x \<and> x < uint bound \<and> cells ! nat x = ts_false)))" .
      have "(j + 1 < uint bound \<and>
          (int (length cells) < uint bound \<or>
           (\<exists>x. j + 1 \<le> x \<and> x < uint bound \<and> cells ! nat x = ts_false))) =
          (int (length cells) < uint bound \<or>
           (\<exists>x. j \<le> x \<and> x < uint bound \<and> cells ! nat x = ts_false))"
        (is "?L = ?R")
      proof
        assume l: ?L
        show ?R
        proof (cases "int (length cells) < uint bound")
          case True
          then show ?thesis by simp
        next
          case nb: False
          with l obtain x where "j + 1 \<le> x" "x < uint bound" "cells ! nat x = ts_false"
            by blast
          then have "j \<le> x \<and> x < uint bound \<and> cells ! nat x = ts_false" by simp
          then show ?thesis by blast
        qed
      next
        assume r: ?R
        show ?L
        proof (cases "int (length cells) < uint bound")
          case True
          with p show ?thesis by simp
        next
          case nb: False
          with r obtain x where x: "j \<le> x" "x < uint bound" "cells ! nat x = ts_false" by blast
          with False have "x \<noteq> j" by auto
          with x have w: "j + 1 \<le> x \<and> x < uint bound \<and> cells ! nat x = ts_false" by simp
          then have "j + 1 < uint bound" by linarith
          with w show ?thesis by blast
        qed
      qed
      with ih lt False eq show ?thesis by simp
    qed
  qed
qed

section \<open>Accumulate folds the line of a placement\<close>

lemma spec_filled_iff:
  "spec_filled cs pos x = (\<exists>i<length cs. pos ! i \<le> int x \<and> int x < pos ! i + uint (cs ! i))"
  by (auto simp: spec_filled_def list_ex_iff)

lemma Accumulate_block_eq:
  assumes "0 \<le> j" "j \<le> uint c" "0 \<le> p" "p + uint c \<le> int (length tmp)"
  shows "\<exists>tmp'. Accumulate_block tmp p j c = Inr tmp' \<and> length tmp' = length tmp \<and>
           (\<forall>x<length tmp. tmp' ! x =
              (if p + j \<le> int x \<and> int x < p + uint c then ts_true else tmp ! x))"
  using assms
proof (induction tmp p j c rule: Accumulate_block.induct)
  case (1 tmp p j c)
  have "uint c < 2 ^ 32" using uint_bounded[of c] by simp
  with "1.prems" have j32: "j < 2 ^ 32" by linarith
  note eq = Accumulate_block.simps[of tmp p j c, unfolded u32_less[OF "1.prems"(1) j32]]
  show ?case
  proof (cases "j < uint c")
    case False
    with "1.prems" have "j = uint c" by simp
    with eq show ?thesis by auto
  next
    case lt: True
    from lt "1.prems" have inb: "0 \<le> p + j \<and> p + j < int (length tmp)" by linarith
    from lt have w: "(word_of_int j :: 32 word) < c"
      using u32_less[OF "1.prems"(1) j32] by simp
    let ?t1 = "tmp[nat (p + j) := ts_true]"
    have "0 \<le> j + 1" "j + 1 \<le> uint c" "p + uint c \<le> int (length ?t1)"
      using lt "1.prems" by simp_all
    from "1.IH"[OF w inb this(1,2) "1.prems"(3) this(3)]
    obtain tmp' where r: "Accumulate_block ?t1 p (j + 1) c = Inr tmp'"
      and l: "length tmp' = length ?t1"
      and v: "\<forall>x<length ?t1. tmp' ! x =
              (if p + (j + 1) \<le> int x \<and> int x < p + uint c then ts_true else ?t1 ! x)"
      by blast
    have "tmp' ! x = (if p + j \<le> int x \<and> int x < p + uint c then ts_true else tmp ! x)"
      if "x < length tmp" for x
    proof (cases "int x = p + j")
      case True
      then have "x = nat (p + j)" by simp
      with v that True lt show ?thesis by simp
    next
      case False
      then have "x \<noteq> nat (p + j)" using inb by linarith
      with v that False show ?thesis by (auto simp: nth_list_update)
    qed
    with r l lt inb eq show ?thesis by simp
  qed
qed

lemma Accumulate_blocks_eq:
  assumes "\<forall>i'. i \<le> i' \<and> i' < length cs \<longrightarrow>
             0 \<le> pos ! i' \<and> pos ! i' + uint (cs ! i') \<le> int (length tmp)"
    and "length cs \<le> length pos"
  shows "\<exists>tmp'. Accumulate_blocks cs pos i tmp = Inr tmp' \<and> length tmp' = length tmp \<and>
           (\<forall>x<length tmp. tmp' ! x =
              (if \<exists>i'. i \<le> i' \<and> i' < length cs \<and>
                       pos ! i' \<le> int x \<and> int x < pos ! i' + uint (cs ! i')
               then ts_true else tmp ! x))"
  using assms
proof (induction cs pos i tmp rule: Accumulate_blocks.induct)
  case (1 cs pos i tmp)
  note eq = Accumulate_blocks.simps[of cs pos i tmp]
  define blk where "blk = (\<lambda>i' x. pos ! i' \<le> int x \<and> int x < pos ! i' + uint (cs ! i'))"
  define cov where "cov = (\<lambda>lo x. \<exists>i'. lo \<le> i' \<and> i' < length cs \<and> blk i' x)"
  show ?case
  proof (cases "i < length cs")
    case False
    with eq show ?thesis by auto
  next
    case lt: True
    with "1.prems" have ip: "i < length pos" by simp
    from lt "1.prems"(1) have b: "0 \<le> pos ! i" "pos ! i + uint (cs ! i) \<le> int (length tmp)"
      by auto
    from Accumulate_block_eq[OF _ _ b, of 0]
    obtain t1 where r1: "Accumulate_block tmp (pos ! i) 0 (cs ! i) = Inr t1"
      and l1: "length t1 = length tmp"
      and v1: "\<forall>x<length tmp. t1 ! x = (if blk i x then ts_true else tmp ! x)"
      unfolding blk_def by auto
    have "\<forall>i'. i + 1 \<le> i' \<and> i' < length cs \<longrightarrow>
             0 \<le> pos ! i' \<and> pos ! i' + uint (cs ! i') \<le> int (length t1)"
      using "1.prems"(1) l1 by simp
    from "1.IH"[OF lt ip r1 this "1.prems"(2)]
    obtain tmp' where r: "Accumulate_blocks cs pos (i + 1) t1 = Inr tmp'"
      and l: "length tmp' = length t1"
      and v: "\<forall>x<length t1. tmp' ! x = (if cov (i + 1) x then ts_true else t1 ! x)"
      unfolding cov_def blk_def by blast
    have split: "cov i x = (blk i x \<or> cov (i + 1) x)" for x
    proof
      assume "cov i x"
      then obtain i' where i': "i \<le> i'" "i' < length cs" "blk i' x"
        unfolding cov_def by blast
      show "blk i x \<or> cov (i + 1) x"
      proof (cases "i' = i")
        case True
        with i' show ?thesis by simp
      next
        case False
        with i' have "i + 1 \<le> i'" by simp
        with i' show ?thesis unfolding cov_def by blast
      qed
    next
      assume "blk i x \<or> cov (i + 1) x"
      then show "cov i x"
      proof
        assume "blk i x"
        with lt show ?thesis unfolding cov_def by blast
      next
        assume "cov (i + 1) x"
        then obtain i' where "i + 1 \<le> i'" "i' < length cs" "blk i' x"
          unfolding cov_def by blast
        then have "i \<le> i' \<and> i' < length cs \<and> blk i' x" by simp
        then show ?thesis unfolding cov_def by blast
      qed
    qed
    have "\<forall>x<length tmp. tmp' ! x = (if cov i x then ts_true else tmp ! x)"
      using v v1 l1 split by simp
    then have "\<forall>x<length tmp. tmp' ! x =
              (if \<exists>i'. i \<le> i' \<and> i' < length cs \<and>
                       pos ! i' \<le> int x \<and> int x < pos ! i' + uint (cs ! i')
               then ts_true else tmp ! x)"
      unfolding cov_def blk_def .
    moreover have "Accumulate_blocks cs pos i tmp = Inr tmp'"
      using r r1 lt ip eq by simp
    ultimately show ?thesis using l l1 by simp
  qed
qed

lemma Accumulate_merge_eq:
  "length tmp \<le> length acc \<Longrightarrow>
   length (Accumulate_merge bf tmp i acc) = length acc \<and>
   (\<forall>x < length acc. Accumulate_merge bf tmp i acc ! x =
      (if i \<le> x \<and> x < length tmp
       then (if bf then tmp ! x else if acc ! x \<noteq> tmp ! x then ts_dontknow else acc ! x)
       else acc ! x))"
proof (induction bf tmp i acc rule: Accumulate_merge.induct)
  case (1 bFirst tmp i accumulator)
  note eq = Accumulate_merge.simps[of bFirst tmp i accumulator]
  define new where "new = (\<lambda>a x. if bFirst then tmp ! x
                                  else if a ! x \<noteq> tmp ! x then ts_dontknow else a ! x)"
  show ?case
  proof (cases "i < length tmp")
    case False
    with eq show ?thesis by auto
  next
    case True
    define a1 where "a1 = (if bFirst then accumulator[i := tmp ! i]
           else if accumulator ! i \<noteq> tmp ! i then accumulator[i := ts_dontknow]
           else accumulator)"
    have l1: "length a1 = length accumulator" by (simp add: a1_def)
    have far: "a1 ! x = accumulator ! x" if "x \<noteq> i" for x
      using that by (simp add: a1_def)
    have near: "a1 ! i = new accumulator i"
      using True "1.prems" by (simp add: a1_def new_def)
    from "1.IH"[OF True] "1.prems" l1
    have ih: "length (Accumulate_merge bFirst tmp (i + 1) a1) = length accumulator"
      "\<forall>x < length accumulator. Accumulate_merge bFirst tmp (i + 1) a1 ! x =
         (if i + 1 \<le> x \<and> x < length tmp then new a1 x else a1 ! x)"
      unfolding a1_def new_def by simp_all
    have e: "Accumulate_merge bFirst tmp i accumulator = Accumulate_merge bFirst tmp (i + 1) a1"
      using eq True unfolding a1_def by simp
    have "Accumulate_merge bFirst tmp (i + 1) a1 ! x =
      (if i \<le> x \<and> x < length tmp then new accumulator x else accumulator ! x)"
      if x: "x < length accumulator" for x
    proof (cases "x = i")
      case xi: True
      with ih(2) x True near show ?thesis by simp
    next
      case False
      with far have f: "a1 ! x = accumulator ! x" by simp
      then have n: "new a1 x = new accumulator x" by (simp add: new_def)
      from False have "(i + 1 \<le> x) = (i \<le> x)" by auto
      with ih(2) x f n show ?thesis by simp
    qed
    with ih(1) e show ?thesis unfolding new_def by simp
  qed
qed

lemma Accumulate_eq:
  assumes "\<forall>i < length (m_vecConst e).
             0 \<le> pos ! i \<and> pos ! i + uint (m_vecConst e ! i) \<le> int (length (m_vecCells e))"
    and "length pos = length (m_vecConst e)" and "length acc = length (m_vecCells e)"
  shows "Accumulate e (pos, acc, bf) =
           Inr (pos, spec_fold bf acc
                  (spec_materialize (length (m_vecCells e)) (m_vecConst e) pos), False)"
proof -
  let ?N = "length (m_vecCells e)"
  let ?cs = "m_vecConst e"
  have "\<forall>i'. 0 \<le> i' \<and> i' < length ?cs \<longrightarrow>
             0 \<le> pos ! i' \<and> pos ! i' + uint (?cs ! i') \<le> int (length (replicate ?N ts_false))"
    using assms(1) by simp
  from Accumulate_blocks_eq[OF this, of ] assms(2)
  obtain tmp where r: "Accumulate_blocks ?cs pos 0 (replicate ?N ts_false) = Inr tmp"
    and l: "length tmp = ?N"
    and v: "\<forall>x<?N. tmp ! x =
              (if \<exists>i'. 0 \<le> i' \<and> i' < length ?cs \<and>
                       pos ! i' \<le> int x \<and> int x < pos ! i' + uint (?cs ! i')
               then ts_true else replicate ?N ts_false ! x)"
    by auto
  have tmp: "tmp = spec_materialize ?N ?cs pos"
    using l v by (intro nth_equalityI) (auto simp: spec_materialize_def spec_filled_iff)
  from Accumulate_merge_eq[of tmp acc bf 0] l assms(3)
  have m: "length (Accumulate_merge bf tmp 0 acc) = ?N"
    "\<forall>x < ?N. Accumulate_merge bf tmp 0 acc ! x =
       (if bf then tmp ! x else if acc ! x \<noteq> tmp ! x then ts_dontknow else acc ! x)"
    by auto
  have "Accumulate_merge bf tmp 0 acc = spec_fold bf acc tmp"
    using m l assms(3) by (intro nth_equalityI) (auto simp: spec_fold_def)
  with r tmp assms(3) show ?thesis by (simp add: Accumulate.simps)
qed

section \<open>The checks without machine arithmetic\<close>

lemma Enumerate_checks_eq:
  assumes "fits_int e" "b < length (m_vecConst e)" "0 \<le> lo" "lo \<le> i"
    "i < int (length (m_vecCells e))"
  shows "Enumerate_checks e b lo i = Inr (\<not> block_ok (m_vecCells e) (m_vecConst e) b lo i)"
proof -
  let ?N = "int (length (m_vecCells e))"
  let ?c = "m_vecConst e ! b"
  from assms(1,2) have c31: "uint ?c < 2 ^ 31" and N31: "?N < 2 ^ 31 - 1"
    by (auto simp: fits_int_def)
  from assms have i0: "0 \<le> i" by simp
  have sum32: "i + uint ?c < 2 ^ 32" using c31 N31 assms(5) by simp
  have bound: "uint (word_of_int i + ?c) = i + uint ?c" by (rule u32_add[OF i0 sum32])
  have gap: "Enumerate_gap (m_vecCells e) lo i =
      Inr (\<exists>x. lo \<le> x \<and> x < i \<and> m_vecCells e ! nat x = ts_true)"
    using assms by (intro Enumerate_gap_eq) simp_all
  have body: "Enumerate_body (m_vecCells e) i (word_of_int i + ?c) =
     (i < i + uint ?c \<and>
      (?N < i + uint ?c \<or>
       (\<exists>x. i \<le> x \<and> x < i + uint ?c \<and> m_vecCells e ! nat x = ts_false)))"
    using Enumerate_body_eq[of i "m_vecCells e" "word_of_int i + ?c"] i0 assms(5) N31
    unfolding bound by simp
  have tail: "Enumerate_tail (m_vecCells e) (sint (word_of_int i + ?c)) =
          (\<exists>x. i + uint ?c \<le> x \<and> x < ?N \<and> m_vecCells e ! nat x = ts_true)"
    if "i + uint ?c \<le> ?N"
  proof -
    from that N31 have "i + uint ?c < 2 ^ 31" by simp
    from s32_add[OF i0 this] have s: "sint (word_of_int i + ?c) = i + uint ?c" .
    have "0 \<le> i + uint ?c" using i0 by simp
    from Enumerate_tail_eq[OF this, of "m_vecCells e"] s show ?thesis by simp
  qed
  show ?thesis
  proof (cases "\<exists>x. lo \<le> x \<and> x < i \<and> m_vecCells e ! nat x = ts_true")
    case True
    then have "\<not> block_ok (m_vecCells e) (m_vecConst e) b lo i"
      unfolding block_ok_def by blast
    with gap True show ?thesis by (simp add: Enumerate_checks_def)
  next
    case nogap: False
    show ?thesis
    proof (cases "Enumerate_body (m_vecCells e) i (word_of_int i + ?c)")
      case True
      with body have "?N < i + uint ?c \<or>
           (\<exists>x. i \<le> x \<and> x < i + uint ?c \<and> m_vecCells e ! nat x = ts_false)" by simp
      then have "\<not> block_ok (m_vecCells e) (m_vecConst e) b lo i"
        unfolding block_ok_def by auto
      with gap nogap True show ?thesis by (simp add: Enumerate_checks_def)
    next
      case nobody: False
      have fit: "i + uint ?c \<le> ?N"
      proof (rule ccontr)
        assume "\<not> i + uint ?c \<le> ?N"
        then have "?N < i + uint ?c" by simp
        moreover from this assms(5) have "i < i + uint ?c" by simp
        ultimately show False using body nobody by simp
      qed
      have nospace: "\<forall>x. i \<le> x \<and> x < i + uint ?c \<longrightarrow> m_vecCells e ! nat x \<noteq> ts_false"
      proof (intro allI impI)
        fix x assume x: "i \<le> x \<and> x < i + uint ?c"
        then have "i < i + uint ?c" by simp
        with body nobody x show "m_vecCells e ! nat x \<noteq> ts_false" by blast
      qed
      from nogap have nosolid: "\<forall>x. lo \<le> x \<and> x < i \<longrightarrow> m_vecCells e ! nat x \<noteq> ts_true"
        by blast
      have "block_ok (m_vecCells e) (m_vecConst e) b lo i =
            (b = length (m_vecConst e) - 1 \<longrightarrow> \<not> Enumerate_tail (m_vecCells e) (sint (word_of_int i + ?c)))"
        unfolding block_ok_def tail[OF fit] using fit nospace nosolid by blast
      with gap nogap nobody show ?thesis by (auto simp: Enumerate_checks_def)
    qed
  qed
qed

section \<open>Folding a set of lines\<close>

lemma narrow_empty [simp]: "narrow s {} = s"
  by (simp add: narrow_def)

lemma narrow_length: "length (fst (narrow s L)) = length (fst s)"
  by (simp add: narrow_def)

lemma narrow_cell_Un:
  "L1 \<noteq> {} \<Longrightarrow> narrow_cell False (narrow_cell bf a L1 x) L2 x = narrow_cell bf a (L1 \<union> L2) x"
  by (auto simp: narrow_cell_def)

lemma narrow_Un: "narrow (narrow s L1) L2 = narrow s (L1 \<union> L2)"
proof (cases "L1 = {}")
  case True
  then show ?thesis by simp
next
  case ne: False
  show ?thesis
  proof (cases "L2 = {}")
    case True
    then show ?thesis by simp
  next
    case False
    with ne show ?thesis
      by (simp add: narrow_def narrow_cell_Un)
  qed
qed

lemma spec_materialize_length [simp]: "length (spec_materialize n cs pos) = n"
  by (simp add: spec_materialize_def)

lemma spec_materialize_nth:
  "x < n \<Longrightarrow> spec_materialize n cs pos ! x = (if spec_filled cs pos x then ts_true else ts_false)"
  by (simp add: spec_materialize_def)

lemma narrow_single:
  assumes "length acc = n"
  shows "narrow (acc, bf) {spec_materialize n cs pos} =
           (spec_fold bf acc (spec_materialize n cs pos), False)"
proof -
  have "map (\<lambda>x. narrow_cell bf (acc ! x) {spec_materialize n cs pos} x) [0..<length acc] =
        spec_fold bf acc (spec_materialize n cs pos)"
    using assms
    by (intro nth_equalityI)
       (auto simp: spec_fold_def narrow_cell_def spec_materialize_nth)
  then show ?thesis by (simp add: narrow_def)
qed

section \<open>The placements that are visited\<close>

lemma reach_full: "length pos = length cs \<Longrightarrow> reach cells cs (length cs) pos = {pos}"
  by (auto simp: reach_def)

lemma reach_cong: "take b pos' = take b pos \<Longrightarrow> reach cells cs b pos' = reach cells cs b pos"
  by (simp add: reach_def)

lemma take_prev:
  assumes "take b p = take b pos" "0 < b"
  shows "p ! (b - 1) = pos ! (b - 1)"
proof -
  from assms(2) have "b - 1 < b" by simp
  then have "take b p ! (b - 1) = p ! (b - 1)" "take b pos ! (b - 1) = pos ! (b - 1)"
    by (simp_all only: nth_take)
  with assms(1) show ?thesis by simp
qed

lemma prev_end_cong: "take b p = take b pos \<Longrightarrow> prev_end cs b p = prev_end cs b pos"
  using take_prev[of b p pos] by (auto simp: prev_end_def)

lemma min_start_cong: "take b p = take b pos \<Longrightarrow> min_start cs b p = min_start cs b pos"
  using take_prev[of b p pos] by (auto simp: min_start_def)

lemma take_Suc_update:
  assumes "b < length p" "b < length pos"
  shows "(take (Suc b) p = take (Suc b) (pos[b := i])) = (take b p = take b pos \<and> p ! b = i)"
proof -
  have "take (Suc b) p = take b p @ [p ! b]"
    using assms(1) by (rule take_Suc_conv_app_nth)
  moreover have "take (Suc b) (pos[b := i]) = take b pos @ [i]"
    using assms(2) by (simp add: take_Suc_conv_app_nth)
  ultimately show ?thesis by simp
qed

lemma reach_step:
  assumes "b < length cs" "length pos = length cs"
  shows "(p \<in> reach cells cs b pos \<and> p ! b = i) =
         (p \<in> reach cells cs (Suc b) (pos[b := i]) \<and>
          min_start cs b pos \<le> i \<and> i < int (length cells) \<and>
          block_ok cells cs b (prev_end cs b pos) i)"
proof (cases "length p = length cs")
  case False
  then show ?thesis by (simp add: reach_def)
next
  case len: True
  have tk: "(take (Suc b) p = take (Suc b) (pos[b := i])) = (take b p = take b pos \<and> p ! b = i)"
    using assms len by (intro take_Suc_update) simp_all
  have all: "(\<forall>b'. b \<le> b' \<and> b' < length cs \<longrightarrow> step_ok cells cs p b') =
        (step_ok cells cs p b \<and> (\<forall>b'. Suc b \<le> b' \<and> b' < length cs \<longrightarrow> step_ok cells cs p b'))"
  proof (intro iffI conjI allI impI)
    assume a: "\<forall>b'. b \<le> b' \<and> b' < length cs \<longrightarrow> step_ok cells cs p b'"
    from a assms(1) show "step_ok cells cs p b" by simp
    fix b' assume "Suc b \<le> b' \<and> b' < length cs"
    then have "b \<le> b' \<and> b' < length cs" by simp
    with a show "step_ok cells cs p b'" by blast
  next
    fix b'
    assume a: "step_ok cells cs p b \<and>
        (\<forall>b'. Suc b \<le> b' \<and> b' < length cs \<longrightarrow> step_ok cells cs p b')"
      and b': "b \<le> b' \<and> b' < length cs"
    show "step_ok cells cs p b'"
    proof (cases "b' = b")
      case True
      with a show ?thesis by simp
    next
      case False
      with b' have "Suc b \<le> b' \<and> b' < length cs" by simp
      with a show ?thesis by blast
    qed
  qed
  have st: "step_ok cells cs p b =
        (min_start cs b pos \<le> i \<and> i < int (length cells) \<and>
          block_ok cells cs b (prev_end cs b pos) i)"
    if "take b p = take b pos" "p ! b = i"
    using that prev_end_cong[OF that(1), of cs] min_start_cong[OF that(1), of cs]
    by (simp add: step_ok_def)
  show ?thesis
    unfolding reach_def mem_Collect_eq tk all using st len by blast
qed

lemma reach_bounds:
  assumes "p \<in> reach cells cs b pos" "b < length cs"
  shows "min_start cs b pos \<le> p ! b" "p ! b < int (length cells)"
proof -
  from assms have "step_ok cells cs p b" and t: "take b p = take b pos"
    by (auto simp: reach_def)
  then show "min_start cs b pos \<le> p ! b" "p ! b < int (length cells)"
    using min_start_cong[OF t, of cs] by (simp_all add: step_ok_def)
qed

lemma reach_split:
  assumes "b < length cs" "length pos = length cs" "min_start cs b pos \<le> i"
    "i < int (length cells)"
  shows "{p \<in> reach cells cs b pos. i \<le> p ! b} =
         (if block_ok cells cs b (prev_end cs b pos) i
          then reach cells cs (Suc b) (pos[b := i]) else {}) \<union>
         {p \<in> reach cells cs b pos. i + 1 \<le> p ! b}"
proof -
  have a: "{p \<in> reach cells cs b pos. i \<le> p ! b} =
        {p. p \<in> reach cells cs b pos \<and> p ! b = i} \<union> {p \<in> reach cells cs b pos. i + 1 \<le> p ! b}"
    by auto
  have "{p. p \<in> reach cells cs b pos \<and> p ! b = i} =
        (if block_ok cells cs b (prev_end cs b pos) i
          then reach cells cs (Suc b) (pos[b := i]) else {})"
    unfolding reach_step[OF assms(1,2)] using assms(3,4) by simp
  with a show ?thesis by simp
qed

section \<open>Enumerate folds the visited placements\<close>

lemma folded_empty [simp]: "folded e s {} = s"
  by (simp add: folded_def)

lemma folded_Un: "folded e (folded e s P1) P2 = folded e s (P1 \<union> P2)"
  by (simp add: folded_def narrow_Un image_Un)

lemma folded_length: "length (fst (folded e s P)) = length (fst s)"
  by (simp add: folded_def narrow_length)

lemma folded_single:
  "length acc = length (m_vecCells e) \<Longrightarrow>
   folded e (acc, bf) {pos} =
     (spec_fold bf acc (spec_materialize (length (m_vecCells e)) (m_vecConst e) pos), False)"
  by (simp add: folded_def narrow_single)

lemma Enumerate_locals:
  assumes "fits_int e" "0 < b" "b \<le> length (m_vecConst e)"
    "0 \<le> pos ! (b - 1)"
    "pos ! (b - 1) + uint (m_vecConst e ! (b - 1)) \<le> int (length (m_vecCells e))"
  shows "Enumerate_prevSpaceStart e b pos = prev_end (m_vecConst e) b pos"
    and "Enumerate_start e b pos = min_start (m_vecConst e) b pos"
proof -
  from assms(1) have N: "int (length (m_vecCells e)) < 2 ^ 31 - 1" by (simp add: fits_int_def)
  with assms(5) have a: "pos ! (b - 1) + uint (m_vecConst e ! (b - 1)) < 2 ^ 31"
    and b: "pos ! (b - 1) + uint (m_vecConst e ! (b - 1)) + 1 < 2 ^ 31" by simp_all
  show "Enumerate_prevSpaceStart e b pos = prev_end (m_vecConst e) b pos"
    using assms(2) s32_add[OF assms(4) a]
    by (simp add: Enumerate_prevSpaceStart_def prev_end_def)
  show "Enumerate_start e b pos = min_start (m_vecConst e) b pos"
    using assms(2) s32_add1[OF assms(4) b]
    by (simp add: Enumerate_start_def min_start_def)
qed

lemma Enumerate_locals0:
  "Enumerate_prevSpaceStart e 0 pos = prev_end (m_vecConst e) 0 pos"
  "Enumerate_start e 0 pos = min_start (m_vecConst e) 0 pos"
  by (simp_all add: Enumerate_prevSpaceStart_def prev_end_def Enumerate_start_def min_start_def)

lemma prev_end_bounds:
  assumes "\<forall>j<b. 0 \<le> pos ! j \<and> pos ! j + uint (cs ! j) \<le> n"
  shows "0 \<le> prev_end cs b pos" "prev_end cs b pos \<le> min_start cs b pos"
proof -
  show "0 \<le> prev_end cs b pos"
  proof (cases "b = 0")
    case True
    then show ?thesis by (simp add: prev_end_def)
  next
    case False
    with assms have "0 \<le> pos ! (b - 1)" by simp
    moreover have "0 \<le> uint (cs ! (b - 1))" by simp
    ultimately show ?thesis using False by (simp add: prev_end_def)
  qed
  show "prev_end cs b pos \<le> min_start cs b pos"
    by (simp add: prev_end_def min_start_def)
qed

lemma Enumerate_eq:
  "fits_int e \<Longrightarrow> length (fst st) = length (m_vecConst e) \<Longrightarrow> b \<le> length (m_vecConst e) \<Longrightarrow>
   length (fst (snd st)) = length (m_vecCells e) \<Longrightarrow>
   (\<forall>j<b. 0 \<le> fst st ! j \<and>
          fst st ! j + uint (m_vecConst e ! j) \<le> int (length (m_vecCells e))) \<Longrightarrow>
   \<exists>pos'. Enumerate e b st =
            Inr (pos', folded e (snd st) (reach (m_vecCells e) (m_vecConst e) b (fst st))) \<and>
          length pos' = length (fst st) \<and> take b pos' = take b (fst st)"
  "fits_int e \<Longrightarrow> length (fst st) = length (m_vecConst e) \<Longrightarrow> b < length (m_vecConst e) \<Longrightarrow>
   length (fst (snd st)) = length (m_vecCells e) \<Longrightarrow>
   (\<forall>j<b. 0 \<le> fst st ! j \<and>
          fst st ! j + uint (m_vecConst e ! j) \<le> int (length (m_vecCells e))) \<Longrightarrow>
   lo = prev_end (m_vecConst e) b (fst st) \<Longrightarrow> min_start (m_vecConst e) b (fst st) \<le> i \<Longrightarrow>
   \<exists>pos'. Enumerate_for e b lo i st =
            Inr (pos', folded e (snd st)
                   {p \<in> reach (m_vecCells e) (m_vecConst e) b (fst st). i \<le> p ! b}) \<and>
          length pos' = length (fst st) \<and> take b pos' = take b (fst st)"
proof (induction e b st and e b lo i st rule: Enumerate_Enumerate_for.induct)
  case (1 e b pos accumulator bFirst)
  let ?cs = "m_vecConst e" and ?cells = "m_vecCells e"
  note eq = Enumerate.simps[of e b pos accumulator bFirst]
  from "1.prems" have len: "length pos = length ?cs" and bk: "b \<le> length ?cs"
    and la: "length accumulator = length ?cells"
    and pre: "\<forall>j<b. 0 \<le> pos ! j \<and> pos ! j + uint (?cs ! j) \<le> int (length ?cells)"
    by simp_all
  show ?case
  proof (cases "b = length ?cs")
    case True
    from pre True have "\<forall>i < length ?cs.
             0 \<le> pos ! i \<and> pos ! i + uint (?cs ! i) \<le> int (length ?cells)" by simp
    from Accumulate_eq[OF this len la, of bFirst] True eq
    have "Enumerate e b (pos, accumulator, bFirst) =
            Inr (pos, folded e (accumulator, bFirst) {pos})"
      by (simp add: folded_single[OF la])
    with True len show ?thesis by (simp add: reach_full)
  next
    case False
    with bk have lt: "b < length ?cs" by simp
    have ng: "\<not> (length ?cs < b \<or> length pos \<le> b)" using lt len by simp
    have loc: "Enumerate_prevSpaceStart e b pos = prev_end ?cs b pos"
      "Enumerate_start e b pos = min_start ?cs b pos"
    proof -
      show "Enumerate_prevSpaceStart e b pos = prev_end ?cs b pos"
      proof (cases "b = 0")
        case True
        then show ?thesis by (simp add: Enumerate_locals0)
      next
        case nz: False
        with pre have "0 \<le> pos ! (b - 1)"
          "pos ! (b - 1) + uint (?cs ! (b - 1)) \<le> int (length ?cells)" by simp_all
        from Enumerate_locals(1)[OF "1.prems"(1) _ bk this] nz show ?thesis by simp
      qed
      show "Enumerate_start e b pos = min_start ?cs b pos"
      proof (cases "b = 0")
        case True
        then show ?thesis by (simp add: Enumerate_locals0)
      next
        case nz: False
        with pre have "0 \<le> pos ! (b - 1)"
          "pos ! (b - 1) + uint (?cs ! (b - 1)) \<le> int (length ?cells)" by simp_all
        from Enumerate_locals(2)[OF "1.prems"(1) _ bk this] nz show ?thesis by simp
      qed
    qed
    from "1.IH"[OF False ng "1.prems"(1)] len lt la pre loc
    obtain pos' where r: "Enumerate_for e b (Enumerate_prevSpaceStart e b pos)
          (Enumerate_start e b pos) (pos, accumulator, bFirst) =
            Inr (pos', folded e (accumulator, bFirst)
                   {p \<in> reach ?cells ?cs b pos. min_start ?cs b pos \<le> p ! b})"
      and l: "length pos' = length pos" and t: "take b pos' = take b pos"
      by auto
    have "{p \<in> reach ?cells ?cs b pos. min_start ?cs b pos \<le> p ! b} = reach ?cells ?cs b pos"
      using reach_bounds(1)[OF _ lt] by blast
    with r l t False ng eq show ?thesis by simp
  qed
next
  case (2 e b prevSpaceStart i pos accumulator bFirst)
  let ?cs = "m_vecConst e" and ?cells = "m_vecCells e"
  note eq = Enumerate_for.simps[of e b prevSpaceStart i pos accumulator bFirst]
  from "2.prems" have fit: "fits_int e" and len: "length pos = length ?cs"
    and lt: "b < length ?cs"
    and la: "length accumulator = length ?cells"
    and pre: "\<forall>j<b. 0 \<le> pos ! j \<and> pos ! j + uint (?cs ! j) \<le> int (length ?cells)"
    and lo: "prevSpaceStart = prev_end ?cs b pos" and st: "min_start ?cs b pos \<le> i"
    by simp_all
  have ng: "\<not> (length ?cs \<le> b \<or> length pos \<le> b)" using lt len by simp
  show ?case
  proof (cases "i < int (length ?cells)")
    case False
    have em: "{p \<in> reach ?cells ?cs b pos. i \<le> p ! b} = {}"
      using reach_bounds(2)[OF _ lt, of _ ?cells pos] False by fastforce
    have "folded e (accumulator, bFirst) {p \<in> reach ?cells ?cs b pos. i \<le> p ! b} =
            (accumulator, bFirst)"
      unfolding em by simp
    moreover have "Enumerate_for e b prevSpaceStart i (pos, accumulator, bFirst) =
            Inr (pos, accumulator, bFirst)"
      using False ng eq by simp
    ultimately show ?thesis by simp
  next
    case iN: True
    from prev_end_bounds[OF pre] st lo have lo0: "0 \<le> prevSpaceStart" "prevSpaceStart \<le> i"
      by simp_all
    from Enumerate_checks_eq[OF fit lt lo0 iN]
    have ch: "Enumerate_checks e b prevSpaceStart i =
                Inr (\<not> block_ok ?cells ?cs b prevSpaceStart i)" .
    let ?pos1 = "pos[b := i]"
    have t1: "take b ?pos1 = take b pos" by simp
    have len1: "length ?pos1 = length ?cs" using len by simp
    have pre1: "\<forall>j<b. 0 \<le> ?pos1 ! j \<and> ?pos1 ! j + uint (?cs ! j) \<le> int (length ?cells)"
      using pre by simp
    have lo1: "prevSpaceStart = prev_end ?cs b ?pos1"
      using lo prev_end_cong[OF t1, of ?cs] by simp
    have st1: "min_start ?cs b ?pos1 \<le> i + 1"
      using st min_start_cong[OF t1, of ?cs] by simp
    note split = reach_split[OF lt len st iN, folded lo]
    show ?thesis
    proof (cases "block_ok ?cells ?cs b prevSpaceStart i")
      case False
      from "2.IH"(1)[OF ng iN ch _ fit] False len1 lt la pre1 lo1 st1
      obtain pos' where r: "Enumerate_for e b prevSpaceStart (i + 1) (?pos1, accumulator, bFirst) =
            Inr (pos', folded e (accumulator, bFirst)
                   {p \<in> reach ?cells ?cs b ?pos1. i + 1 \<le> p ! b})"
        and l: "length pos' = length ?pos1" and t: "take b pos' = take b ?pos1"
        by auto
      have "{p \<in> reach ?cells ?cs b pos. i \<le> p ! b} =
            {p \<in> reach ?cells ?cs b ?pos1. i + 1 \<le> p ! b}"
        using split False reach_cong[OF t1, of ?cells ?cs] by simp
      with r l t ng iN ch False eq show ?thesis by simp
    next
      case ok: True
      then have fits_i: "i + uint (?cs ! b) \<le> int (length ?cells)"
        by (simp add: block_ok_def)
      from st prev_end_bounds[OF pre] lo0 have i0: "0 \<le> i" by simp
      have pre2: "\<forall>j<b + 1. 0 \<le> ?pos1 ! j \<and> ?pos1 ! j + uint (?cs ! j) \<le> int (length ?cells)"
      proof (intro allI impI)
        fix j assume "j < b + 1"
        show "0 \<le> ?pos1 ! j \<and> ?pos1 ! j + uint (?cs ! j) \<le> int (length ?cells)"
        proof (cases "j = b")
          case True
          with fits_i i0 lt len show ?thesis by simp
        next
          case False
          with \<open>j < b + 1\<close> have "j < b" by simp
          with pre1 show ?thesis by blast
        qed
      qed
      from "2.IH"(2)[OF ng iN ch _ fit] ok len1 lt la pre2
      obtain pos2 where r2: "Enumerate e (b + 1) (?pos1, accumulator, bFirst) =
            Inr (pos2, folded e (accumulator, bFirst) (reach ?cells ?cs (b + 1) ?pos1))"
        and l2: "length pos2 = length ?pos1" and t2: "take (b + 1) pos2 = take (b + 1) ?pos1"
        by auto
      let ?s2 = "folded e (accumulator, bFirst) (reach ?cells ?cs (b + 1) ?pos1)"
      have tb2: "take b pos2 = take b pos"
      proof -
        have "take b (take (b + 1) pos2) = take b (take (b + 1) ?pos1)" using t2 by simp
        then show ?thesis by (simp add: min_def)
      qed
      have len2: "length pos2 = length ?cs" using l2 len1 by simp
      have la2: "length (fst ?s2) = length ?cells" using la by (simp add: folded_length)
      have pre3: "\<forall>j<b. 0 \<le> pos2 ! j \<and> pos2 ! j + uint (?cs ! j) \<le> int (length ?cells)"
      proof (intro allI impI)
        fix j assume j: "j < b"
        then have "take b pos2 ! j = pos2 ! j" "take b pos ! j = pos ! j" by simp_all
        with tb2 have "pos2 ! j = pos ! j" by simp
        with pre j show "0 \<le> pos2 ! j \<and> pos2 ! j + uint (?cs ! j) \<le> int (length ?cells)" by simp
      qed
      have lo2: "prevSpaceStart = prev_end ?cs b pos2"
        using lo prev_end_cong[OF tb2, of ?cs] by simp
      have st2: "min_start ?cs b pos2 \<le> i + 1"
        using st min_start_cong[OF tb2, of ?cs] by simp
      from "2.IH"(3)[OF ng iN ch _ r2 fit] ok len2 lt la2 pre3 lo2 st2
      obtain pos' where r: "Enumerate_for e b prevSpaceStart (i + 1) (pos2, ?s2) =
            Inr (pos', folded e ?s2 {p \<in> reach ?cells ?cs b pos2. i + 1 \<le> p ! b})"
        and l: "length pos' = length pos2" and t: "take b pos' = take b pos2"
        by auto
      have "folded e ?s2 {p \<in> reach ?cells ?cs b pos2. i + 1 \<le> p ! b} =
            folded e (accumulator, bFirst) {p \<in> reach ?cells ?cs b pos. i \<le> p ! b}"
        unfolding folded_Un using split ok reach_cong[OF tb2, of ?cells ?cs] by simp
      with r l t l2 tb2 r2 ng iN ch ok eq show ?thesis by simp
    qed
  qed
qed

section \<open>The visited placements are the valid ones\<close>

lemma placement_mono:
  assumes sep: "\<forall>i. Suc i < length cs \<longrightarrow> pos ! i + uint (cs ! i) + 1 \<le> pos ! Suc i"
    and "j \<le> j'" "j' < length cs"
  shows "pos ! j \<le> pos ! j' \<and> pos ! j + uint (cs ! j) \<le> pos ! j' + uint (cs ! j')"
  using assms(2,3)
proof (induction j' rule: dec_induct)
  case base
  show ?case by simp
next
  case (step n)
  then have "Suc n < length cs" by simp
  with sep have s: "pos ! n + uint (cs ! n) + 1 \<le> pos ! Suc n" by blast
  from step have ih: "pos ! j \<le> pos ! n \<and> pos ! j + uint (cs ! j) \<le> pos ! n + uint (cs ! n)"
    by simp
  have "0 \<le> uint (cs ! n)" "0 \<le> uint (cs ! Suc n)" by simp_all
  with s ih show ?case by linarith
qed

lemma steps_nonneg:
  assumes "\<forall>b<length cs. min_start cs b p \<le> p ! b" "b < length cs"
  shows "0 \<le> p ! b"
  using assms(2)
proof (induction b)
  case 0
  with assms(1) have "min_start cs 0 p \<le> p ! 0" by blast
  then show ?case by (simp add: min_start_def)
next
  case (Suc b)
  then have "0 \<le> p ! b" by simp
  moreover have "0 \<le> uint (cs ! b)" by simp
  moreover from assms(1) Suc.prems have "min_start cs (Suc b) p \<le> p ! Suc b" by blast
  then have "p ! b + uint (cs ! b) + 1 \<le> p ! Suc b" by (simp add: min_start_def)
  ultimately show ?case by linarith
qed

lemma steps_cover:
  assumes ok: "\<forall>b'<length cs. step_ok cells cs p b'"
    and "b < length cs" "prev_end cs b p \<le> int x" "x < length cells" "cells ! x = ts_true"
  shows "\<exists>b'<length cs. p ! b' \<le> int x \<and> int x < p ! b' + uint (cs ! b')"
  using assms(2,3)
proof (induction "length cs - b" arbitrary: b)
  case 0
  then show ?case by simp
next
  case (Suc n)
  from ok Suc.prems(1) have s: "step_ok cells cs p b" by blast
  then have blk: "block_ok cells cs b (prev_end cs b p) (p ! b)" by (simp add: step_ok_def)
  have cx: "cells ! nat (int x) = ts_true" using assms(5) by simp
  show ?case
  proof (cases "int x < p ! b")
    case True
    with blk Suc.prems(2) have "cells ! nat (int x) \<noteq> ts_true"
      unfolding block_ok_def by blast
    with cx show ?thesis by simp
  next
    case ge: False
    show ?thesis
    proof (cases "int x < p ! b + uint (cs ! b)")
      case True
      with ge Suc.prems(1) show ?thesis by (intro exI[of _ b]) simp
    next
      case False
      show ?thesis
      proof (cases "b = length cs - 1")
        case True
        with blk have "\<forall>y. p ! b + uint (cs ! b) \<le> y \<and> y < int (length cells) \<longrightarrow>
                  cells ! nat y \<noteq> ts_true"
          by (simp add: block_ok_def)
        moreover have "p ! b + uint (cs ! b) \<le> int x \<and> int x < int (length cells)"
          using False assms(4) by simp
        ultimately have "cells ! nat (int x) \<noteq> ts_true" by blast
        with cx show ?thesis by simp
      next
        case nl: False
        with Suc.prems(1) have lt: "Suc b < length cs" by simp
        have "n = length cs - Suc b" using Suc.hyps(2) by simp
        moreover have "prev_end cs (Suc b) p \<le> int x" using False by (simp add: prev_end_def)
        ultimately show ?thesis using Suc.hyps(1) lt by blast
      qed
    qed
  qed
qed

lemma reach_spec_valid:
  assumes "cs \<noteq> []"
  shows "reach cells cs 0 pos = {p. spec_valid cells cs p}"
proof (intro set_eqI iffI)
  fix p assume "p \<in> reach cells cs 0 pos"
  then have len: "length p = length cs" and ok: "\<forall>b<length cs. step_ok cells cs p b"
    by (simp_all add: reach_def)
  have ms: "\<forall>b<length cs. min_start cs b p \<le> p ! b" using ok by (simp add: step_ok_def)
  have geo: "spec_placement cs (length cells) p"
    unfolding spec_placement_def
  proof (intro conjI allI impI)
    show "length p = length cs" by (rule len)
  next
    fix i assume i: "i < length cs"
    show "0 \<le> p ! i" by (rule steps_nonneg[OF ms i])
    from ok i show "p ! i < int (length cells)" by (simp add: step_ok_def)
    from ok i show "p ! i + uint (cs ! i) \<le> int (length cells)"
      by (simp add: step_ok_def block_ok_def)
  next
    fix i assume "Suc i < length cs"
    with ms have "min_start cs (Suc i) p \<le> p ! Suc i" by blast
    then show "p ! i + uint (cs ! i) + 1 \<le> p ! Suc i" by (simp add: min_start_def)
  qed
  have con: "spec_consistent cells (spec_materialize (length cells) cs p)"
    unfolding spec_consistent_def
  proof (intro allI impI)
    fix x assume x: "x < length cells"
    show "cells ! x = ts_dontknow \<or> cells ! x = spec_materialize (length cells) cs p ! x"
    proof (cases "cells ! x")
      case ts_dontknow
      then show ?thesis by simp
    next
      case ts_true
      from assms have "0 < length cs" by simp
      from steps_cover[OF ok this _ x ts_true]
      have "spec_filled cs p x" by (simp add: prev_end_def spec_filled_iff)
      with ts_true x show ?thesis by (simp add: spec_materialize_nth)
    next
      case ts_false
      have "\<not> spec_filled cs p x"
      proof
        assume "spec_filled cs p x"
        then obtain b where b: "b < length cs" "p ! b \<le> int x" "int x < p ! b + uint (cs ! b)"
          by (auto simp: spec_filled_iff)
        from ok b(1) have "block_ok cells cs b (prev_end cs b p) (p ! b)"
          by (simp add: step_ok_def)
        with b(2,3) have "cells ! nat (int x) \<noteq> ts_false"
          unfolding block_ok_def by blast
        with ts_false show False by simp
      qed
      with ts_false x show ?thesis by (simp add: spec_materialize_nth)
    qed
  qed
  from geo con show "p \<in> {p. spec_valid cells cs p}" by (simp add: spec_valid_def)
next
  fix p assume "p \<in> {p. spec_valid cells cs p}"
  then have geo: "spec_placement cs (length cells) p"
    and con: "spec_consistent cells (spec_materialize (length cells) cs p)"
    by (simp_all add: spec_valid_def)
  from geo have len: "length p = length cs"
    and inb: "\<forall>i<length cs. 0 \<le> p ! i \<and> p ! i < int (length cells) \<and>
                 p ! i + uint (cs ! i) \<le> int (length cells)"
    and sep: "\<forall>i. Suc i < length cs \<longrightarrow> p ! i + uint (cs ! i) + 1 \<le> p ! Suc i"
    by (simp_all add: spec_placement_def)
  have line: "cells ! x = ts_dontknow \<or>
              cells ! x = (if spec_filled cs p x then ts_true else ts_false)"
    if "x < length cells" for x
    using con that by (simp add: spec_consistent_def spec_materialize_nth)
  have solid: "\<exists>j<length cs. p ! j \<le> y \<and> y < p ! j + uint (cs ! j)"
    if "0 \<le> y" "y < int (length cells)" "cells ! nat y = ts_true" for y
  proof -
    from that have "nat y < length cells" by simp
    from line[OF this] that(3) have "spec_filled cs p (nat y)" by (auto split: if_splits)
    with that(1) show ?thesis by (simp add: spec_filled_iff)
  qed
  have space: "\<not> (p ! j \<le> y \<and> y < p ! j + uint (cs ! j))"
    if "0 \<le> y" "y < int (length cells)" "cells ! nat y = ts_false" "j < length cs" for y j
  proof -
    from that have "nat y < length cells" by simp
    from line[OF this] that(3) have "\<not> spec_filled cs p (nat y)" by (auto split: if_splits)
    with that(1,4) show ?thesis by (auto simp: spec_filled_iff)
  qed
  have "step_ok cells cs p b" if b: "b < length cs" for b
  proof -
    let ?lo = "prev_end cs b p"
    from inb b have pb: "0 \<le> p ! b" "p ! b < int (length cells)"
      "p ! b + uint (cs ! b) \<le> int (length cells)" by simp_all
    have lo0: "0 \<le> ?lo"
    proof (cases "b = 0")
      case True
      then show ?thesis by (simp add: prev_end_def)
    next
      case False
      with b inb have "0 \<le> p ! (b - 1)" by simp
      moreover have "0 \<le> uint (cs ! (b - 1))" by simp
      ultimately show ?thesis using False by (simp add: prev_end_def)
    qed
    have ms: "min_start cs b p \<le> p ! b"
    proof (cases "b = 0")
      case True
      with pb show ?thesis by (simp add: min_start_def)
    next
      case False
      then obtain b0 where b0: "b = Suc b0" by (cases b) simp_all
      with sep b show ?thesis by (simp add: min_start_def)
    qed
    have before: "p ! j + uint (cs ! j) \<le> ?lo" if "j < b" for j
    proof -
      from that obtain b0 where b0: "b = Suc b0" by (cases b) simp_all
      with that b have "j \<le> b0" "b0 < length cs" by simp_all
      from placement_mono[OF sep this] b0 show ?thesis by (simp add: prev_end_def)
    qed
    have gap: "cells ! nat y \<noteq> ts_true" if y: "?lo \<le> y \<and> y < p ! b" for y
    proof
      assume t: "cells ! nat y = ts_true"
      from y lo0 pb have "0 \<le> y" "y < int (length cells)" by simp_all
      from solid[OF this t] obtain j where j: "j < length cs" "p ! j \<le> y"
        "y < p ! j + uint (cs ! j)" by blast
      show False
      proof (cases "j < b")
        case True
        from before[OF this] j y show False by simp
      next
        case False
        then have "b \<le> j" by simp
        from placement_mono[OF sep this j(1)] j y show False by simp
      qed
    qed
    have body: "cells ! nat y \<noteq> ts_false" if y: "p ! b \<le> y \<and> y < p ! b + uint (cs ! b)" for y
    proof
      assume f: "cells ! nat y = ts_false"
      from y pb have "0 \<le> y" "y < int (length cells)" by simp_all
      from space[OF this f b] y show False by simp
    qed
    have tail: "cells ! nat y \<noteq> ts_true"
      if last: "b = length cs - 1" and y: "p ! b + uint (cs ! b) \<le> y \<and> y < int (length cells)" for y
    proof
      assume t: "cells ! nat y = ts_true"
      have "0 \<le> uint (cs ! b)" by simp
      with y pb have "0 \<le> y" "y < int (length cells)" by linarith+
      from solid[OF this t] obtain j where j: "j < length cs" "p ! j \<le> y"
        "y < p ! j + uint (cs ! j)" by blast
      with last have "j \<le> b" by simp
      from placement_mono[OF sep this b] j y show False by simp
    qed
    from ms pb gap body tail show ?thesis
      unfolding step_ok_def block_ok_def by blast
  qed
  with len show "p \<in> reach cells cs 0 pos" by (simp add: reach_def)
qed

lemma reach_no_blocks: "reach cells [] 0 pos = {[]}"
  by (auto simp: reach_def)

section \<open>Soundness\<close>

lemma narrow_nonempty:
  "L \<noteq> {} \<Longrightarrow>
   narrow s L = (map (\<lambda>x. narrow_cell (snd s) (fst s ! x) L x) [0..<length (fst s)], False)"
  by (simp add: narrow_def)

lemma spec_forced_concrete:
  assumes "spec_forced cells cs x \<noteq> ts_dontknow"
  shows "\<exists>pos. spec_valid cells cs pos"
    and "spec_valid cells cs pos \<Longrightarrow>
         spec_materialize (length cells) cs pos ! x = spec_forced cells cs x"
  using assms by (auto simp: spec_forced_def split: if_splits)

lemma spec_forced_consistent:
  assumes "spec_forced cells cs x \<noteq> ts_dontknow" "x < length cells"
  shows "cells ! x = ts_dontknow \<or> cells ! x = spec_forced cells cs x"
proof -
  from spec_forced_concrete(1)[OF assms(1)] obtain pos where v: "spec_valid cells cs pos" ..
  from spec_forced_concrete(2)[OF assms(1) v]
  have "spec_materialize (length cells) cs pos ! x = spec_forced cells cs x" .
  moreover from v assms(2)
  have "cells ! x = ts_dontknow \<or> cells ! x = spec_materialize (length cells) cs pos ! x"
    by (simp add: spec_valid_def spec_consistent_def)
  ultimately show ?thesis by simp
qed

lemma folded_forced:
  assumes "m_vecConst e \<noteq> []" "x < length (m_vecCells e)"
  shows "fst (folded e (replicate (length (m_vecCells e)) ts_dontknow, True)
                (reach (m_vecCells e) (m_vecConst e) 0 pos0)) ! x =
         spec_forced (m_vecCells e) (m_vecConst e) x"
proof -
  let ?cells = "m_vecCells e" and ?cs = "m_vecConst e"
  let ?V = "{p. spec_valid ?cells ?cs p}"
  have R: "reach ?cells ?cs 0 pos0 = ?V" by (rule reach_spec_valid[OF assms(1)])
  show ?thesis
  proof (cases "?V = {}")
    case True
    then have "\<not> (\<exists>pos. spec_valid ?cells ?cs pos)" by blast
    then have "spec_forced ?cells ?cs x = ts_dontknow" by (simp add: spec_forced_def)
    moreover have "folded e (replicate (length ?cells) ts_dontknow, True) ?V =
        (replicate (length ?cells) ts_dontknow, True)"
      unfolding True by simp
    ultimately show ?thesis unfolding R using assms(2) by simp
  next
    case False
    then have ex: "\<exists>pos. spec_valid ?cells ?cs pos" by blast
    from False have ne: "spec_materialize (length ?cells) ?cs ` ?V \<noteq> {}" by simp
    have "fst (folded e (replicate (length ?cells) ts_dontknow, True) ?V) ! x =
          narrow_cell True ts_dontknow (spec_materialize (length ?cells) ?cs ` ?V) x"
      unfolding folded_def narrow_nonempty[OF ne] using assms(2) by simp
    also have "\<dots> = spec_forced ?cells ?cs x"
      using ex unfolding narrow_cell_def spec_forced_def by simp
    finally show ?thesis unfolding R .
  qed
qed

lemma Enumerate_Infer:
  assumes "fits_int e"
  shows "\<exists>pos. Enumerate e 0 (replicate (length (m_vecConst e)) 0,
                   replicate (length (m_vecCells e)) ts_dontknow, True) =
           Inr (pos, folded e (replicate (length (m_vecCells e)) ts_dontknow, True)
                  (reach (m_vecCells e) (m_vecConst e) 0 (replicate (length (m_vecConst e)) 0)))"
  using Enumerate_eq(1)[OF assms, of "(replicate (length (m_vecConst e)) 0,
                   replicate (length (m_vecCells e)) ts_dontknow, True)" 0]
  by auto

lemma materialize_no_blocks:
  "spec_materialize n [] pos = replicate n ts_false"
  by (intro nth_equalityI) (simp_all add: spec_materialize_nth spec_filled_def)

lemma folded_no_blocks:
  assumes "m_vecConst e = []"
  shows "folded e (replicate (length (m_vecCells e)) ts_dontknow, True)
           (reach (m_vecCells e) (m_vecConst e) 0 pos0) =
         (replicate (length (m_vecCells e)) ts_false, False)"
  using assms
  by (simp add: reach_no_blocks folded_single spec_fold_def materialize_no_blocks)

lemma Infer_committed:
  assumes "fits_int e" and "Infer e = Inr (status, e')"
  shows "(\<forall>x < length (m_vecCells e). m_vecCells e' ! x \<noteq> m_vecCells e ! x \<longrightarrow>
            (\<forall>pos. spec_valid (m_vecCells e) (m_vecConst e) pos \<longrightarrow>
               spec_materialize (length (m_vecCells e)) (m_vecConst e) pos ! x =
               m_vecCells e' ! x)) \<and>
         (m_vecConst e \<noteq> [] \<longrightarrow> status = 0) \<and>
         (status = 0 \<longrightarrow>
            (\<forall>x < length (m_vecCells e). m_vecCells e' ! x =
              (if spec_forced (m_vecCells e) (m_vecConst e) x = ts_dontknow
               then m_vecCells e ! x
               else spec_forced (m_vecCells e) (m_vecConst e) x)))"
proof -
  let ?cells = "m_vecCells e" and ?cs = "m_vecConst e"
  let ?N = "length ?cells"
  let ?init = "(replicate ?N ts_dontknow, True)"
  let ?R = "reach ?cells ?cs 0 (replicate (length ?cs) 0)"
  from Infer_InrD[OF assms(2)] obtain pos acc bf r where
    en: "Enumerate e 0 (replicate (length ?cs) 0, replicate ?N ts_dontknow, True)
           = Inr (pos, acc, bf)"
    and sv: "Infer_save e acc 0 ?N = (e', r)"
    and st: "r = None \<and> status = 0 \<or> (\<exists>x. r = Some (Thrown x)) \<and> status = - 1"
    by blast
  from Enumerate_Infer[OF assms(1)] obtain pos' where
    "Enumerate e 0 (replicate (length ?cs) 0, replicate ?N ts_dontknow, True)
           = Inr (pos', folded e ?init ?R)" ..
  with en have "(acc, bf) = folded e ?init ?R" by simp
  then have acc: "acc = fst (folded e ?init ?R)" by (metis fst_conv)
  have cells: "m_vecCells e' ! x = m_vecCells e ! x \<or>
         (m_vecCells e ! x = ts_dontknow \<and> acc ! x \<noteq> ts_dontknow \<and>
          m_vecCells e' ! x = acc ! x)" for x
    using Infer_save_cells[OF sv, of x] by auto
  show ?thesis
  proof (cases "?cs = []")
    case True
    from folded_no_blocks[OF True] acc have a: "acc = replicate ?N ts_false" by simp
    have line: "spec_materialize ?N ?cs p = replicate ?N ts_false" for p
      using True by (simp add: materialize_no_blocks)
    have snd: "\<forall>x < ?N. m_vecCells e' ! x \<noteq> ?cells ! x \<longrightarrow>
            (\<forall>pos. spec_valid ?cells ?cs pos \<longrightarrow>
               spec_materialize ?N ?cs pos ! x = m_vecCells e' ! x)"
    proof (intro allI impI)
      fix x p assume x: "x < ?N" and d: "m_vecCells e' ! x \<noteq> ?cells ! x"
      from cells[of x] d have "m_vecCells e' ! x = acc ! x" by auto
      with a x line[of p] show "spec_materialize ?N ?cs p ! x = m_vecCells e' ! x" by simp
    qed
    have ex: "\<forall>x < ?N. m_vecCells e' ! x =
              (if spec_forced ?cells ?cs x = ts_dontknow then ?cells ! x
               else spec_forced ?cells ?cs x)" if s0: "status = 0"
    proof (intro allI impI)
      fix x assume x: "x < ?N"
      from s0 st have rN: "r = None" by auto
      have new: "m_vecCells e' ! y = ts_false" if "y < ?N" for y
        using Infer_save_None[OF sv[unfolded rN] le_refl _ that] a that by simp
      have old: "?cells ! y = ts_dontknow \<or> ?cells ! y = ts_false" if "y < ?N" for y
        using cells[of y] new[OF that] by auto
      have v: "spec_valid ?cells ?cs []"
        using True old by (auto simp: spec_valid_def spec_placement_def spec_consistent_def
            materialize_no_blocks)
      have "spec_forced ?cells ?cs x = ts_false"
        using v x line unfolding spec_forced_def by auto
      with new[OF x] show "m_vecCells e' ! x =
              (if spec_forced ?cells ?cs x = ts_dontknow then ?cells ! x
               else spec_forced ?cells ?cs x)" by simp
    qed
    from snd ex True show ?thesis by blast
  next
    case False
    have a: "acc ! x = spec_forced ?cells ?cs x" if "x < ?N" for x
      using folded_forced[OF False that] acc by simp
    have noc: "?cells ! x = ts_dontknow \<or> ?cells ! x = acc ! x"
      if "x < ?N" "acc ! x \<noteq> ts_dontknow" for x
      using spec_forced_consistent[of ?cells ?cs x] that a[OF that(1)] by simp
    have rN: "r = None"
    proof (cases r)
      case None
      then show ?thesis .
    next
      case (Some f)
      with st obtain t where f: "f = Thrown t" by auto
      from Infer_save_Some[OF sv[unfolded Some] le_refl] f
      obtain c where "c < ?N" "acc ! c \<noteq> ts_dontknow" "?cells ! c \<noteq> acc ! c"
        "?cells ! c \<noteq> ts_dontknow" by auto
      with noc[of c] show ?thesis by simp
    qed
    with st have s0: "status = 0" by auto
    have snd: "\<forall>x < ?N. m_vecCells e' ! x \<noteq> ?cells ! x \<longrightarrow>
            (\<forall>pos. spec_valid ?cells ?cs pos \<longrightarrow>
               spec_materialize ?N ?cs pos ! x = m_vecCells e' ! x)"
    proof (intro allI impI)
      fix x p assume x: "x < ?N" and d: "m_vecCells e' ! x \<noteq> ?cells ! x"
        and v: "spec_valid ?cells ?cs p"
      from cells[of x] d have "acc ! x \<noteq> ts_dontknow" "m_vecCells e' ! x = acc ! x" by auto
      with a[OF x] spec_forced_concrete(2)[OF _ v, of x]
      show "spec_materialize ?N ?cs p ! x = m_vecCells e' ! x" by simp
    qed
    have ex: "\<forall>x < ?N. m_vecCells e' ! x =
              (if spec_forced ?cells ?cs x = ts_dontknow then ?cells ! x
               else spec_forced ?cells ?cs x)"
    proof (intro allI impI)
      fix x assume x: "x < ?N"
      show "m_vecCells e' ! x =
              (if spec_forced ?cells ?cs x = ts_dontknow then ?cells ! x
               else spec_forced ?cells ?cs x)"
      proof (cases "acc ! x = ts_dontknow")
        case True
        with cells[of x] a[OF x] show ?thesis by auto
      next
        case False
        from Infer_save_None[OF sv[unfolded rN] le_refl _ x False] a[OF x] False
        show ?thesis by simp
      qed
    qed
    from snd ex s0 show ?thesis by blast
  qed
qed

text \<open>
  Claim C1, as the code has it. For a line whose sizes fit an \<^verbatim>\<open>int\<close>: every cell
  that a call of \<open>Infer\<close> changes holds, after the call, the value that the cell has
  in every valid placement. A constraint with at least one block always gives the
  status 0, and whenever the status is 0 the cells after the call are the cells
  before it with every forced value of the intersection written in, and nothing else.
\<close>

theorem Infer_sound:
  assumes "fits_int e" and "Infer e = Inr (status, e')"
  shows "(\<forall>x < length (m_vecCells e). m_vecCells e' ! x \<noteq> m_vecCells e ! x \<longrightarrow>
            (\<forall>pos. spec_valid (m_vecCells e) (m_vecConst e) pos \<longrightarrow>
               spec_materialize (length (m_vecCells e)) (m_vecConst e) pos ! x =
               m_vecCells e' ! x)) \<and>
         (m_vecConst e \<noteq> [] \<longrightarrow> status = 0) \<and>
         (status = 0 \<longrightarrow>
            (\<forall>x < length (m_vecCells e). m_vecCells e' ! x =
              (if spec_forced (m_vecCells e) (m_vecConst e) x = ts_dontknow
               then m_vecCells e ! x
               else spec_forced (m_vecCells e) (m_vecConst e) x)))"
  using assms by (rule Infer_committed)

section \<open>The budgets that suffice\<close>

lemma Enumerate_pos_frame:
  "Enumerate e b st = Inr st' \<Longrightarrow>
     length (fst st') = length (fst st) \<and> take b (fst st') = take b (fst st)"
  "Enumerate_for e b lo i st = Inr st' \<Longrightarrow>
     length (fst st') = length (fst st) \<and> take b (fst st') = take b (fst st)"
proof (induction e b st and e b lo i st arbitrary: st' and st'
       rule: Enumerate_Enumerate_for.induct)
  case (1 e b pos accumulator bFirst)
  from "1.prems" "1.IH" show ?case
    by (auto simp: Enumerate.simps[of e b] Accumulate.simps split: if_splits sum.splits)
next
  case (2 e b prevSpaceStart i pos accumulator bFirst)
  note eq = Enumerate_for.simps[of e b prevSpaceStart i pos accumulator bFirst]
  show ?case
  proof (cases "i < int (length (m_vecCells e))")
    case False
    with "2.prems" eq show ?thesis by (auto split: if_splits)
  next
    case lt: True
    from "2.prems" eq have ok: "\<not> (length (m_vecConst e) \<le> b \<or> length pos \<le> b)"
      by (auto split: if_splits)
    from "2.prems" eq ok lt obtain pruned where
      ch: "Enumerate_checks e b prevSpaceStart i = Inr pruned"
      by (auto split: sum.splits)
    show ?thesis
    proof (cases pruned)
      case True
      with "2.prems" eq ok lt ch
      have "Enumerate_for e b prevSpaceStart (i + 1) (pos[b := i], accumulator, bFirst) = Inr st'"
        by simp
      from "2.IH"(1)[OF ok lt ch True this] show ?thesis by simp
    next
      case False
      with "2.prems" eq ok lt ch obtain st2 where
        st2: "Enumerate e (b + 1) (pos[b := i], accumulator, bFirst) = Inr st2"
        and rest: "Enumerate_for e b prevSpaceStart (i + 1) st2 = Inr st'"
        by (auto split: sum.splits)
      from "2.IH"(2)[OF ok lt ch False st2]
      have a: "length (fst st2) = length pos" "take (b + 1) (fst st2) = take (b + 1) (pos[b := i])"
        by simp_all
      have "take b (take (b + 1) (fst st2)) = take b (take (b + 1) (pos[b := i]))"
        using a(2) by simp
      then have b2: "take b (fst st2) = take b pos" by (simp add: min_def)
      from "2.IH"(3)[OF ok lt ch False st2 rest] a(1) b2 show ?thesis by simp
    qed
  qed
qed

lemma Enumerate_bounded_eq:
  "fits_int e \<Longrightarrow> length (fst st) = length (m_vecConst e) \<Longrightarrow> b \<le> length (m_vecConst e) \<Longrightarrow>
   (\<forall>j<b. 0 \<le> fst st ! j \<and>
          fst st ! j + uint (m_vecConst e ! j) \<le> int (length (m_vecCells e))) \<Longrightarrow>
   length (m_vecConst e) - b \<le> depth \<Longrightarrow> length (m_vecCells e) \<le> width \<Longrightarrow>
   Enumerate_bounded depth width e b st = Some (Enumerate e b st)"
  "fits_int e \<Longrightarrow> length (fst st) = length (m_vecConst e) \<Longrightarrow> b < length (m_vecConst e) \<Longrightarrow>
   (\<forall>j<b. 0 \<le> fst st ! j \<and>
          fst st ! j + uint (m_vecConst e ! j) \<le> int (length (m_vecCells e))) \<Longrightarrow>
   lo = prev_end (m_vecConst e) b (fst st) \<Longrightarrow> min_start (m_vecConst e) b (fst st) \<le> i \<Longrightarrow>
   length (m_vecConst e) - b \<le> depth \<Longrightarrow> length (m_vecCells e) \<le> width \<Longrightarrow>
   nat (int (length (m_vecCells e)) - i) \<le> left \<Longrightarrow>
   Enumerate_for_bounded depth width left e b lo i st = Some (Enumerate_for e b lo i st)"
proof (induction e b st and e b lo i st arbitrary: depth and depth left
       rule: Enumerate_Enumerate_for.induct)
  case (1 e b pos accumulator bFirst)
  let ?cs = "m_vecConst e" and ?cells = "m_vecCells e"
  note eq = Enumerate.simps[of e b pos accumulator bFirst]
  note beq = Enumerate_bounded.simps[of depth width e b pos accumulator bFirst]
  from "1.prems" have fit: "fits_int e" and len: "length pos = length ?cs"
    and bk: "b \<le> length ?cs"
    and pre: "\<forall>j<b. 0 \<le> pos ! j \<and> pos ! j + uint (?cs ! j) \<le> int (length ?cells)"
    and dep: "length ?cs - b \<le> depth" and wid: "length ?cells \<le> width"
    by simp_all
  show ?case
  proof (cases "b = length ?cs")
    case True
    with eq beq show ?thesis by simp
  next
    case False
    with bk have lt: "b < length ?cs" by simp
    have ng: "\<not> (length ?cs < b \<or> length pos \<le> b)" using lt len by simp
    have loc: "Enumerate_prevSpaceStart e b pos = prev_end ?cs b pos"
      "Enumerate_start e b pos = min_start ?cs b pos"
    proof -
      show "Enumerate_prevSpaceStart e b pos = prev_end ?cs b pos"
      proof (cases "b = 0")
        case True
        then show ?thesis by (simp add: Enumerate_locals0)
      next
        case nz: False
        with pre have "0 \<le> pos ! (b - 1)"
          "pos ! (b - 1) + uint (?cs ! (b - 1)) \<le> int (length ?cells)" by simp_all
        from Enumerate_locals(1)[OF fit _ bk this] nz show ?thesis by simp
      qed
      show "Enumerate_start e b pos = min_start ?cs b pos"
      proof (cases "b = 0")
        case True
        then show ?thesis by (simp add: Enumerate_locals0)
      next
        case nz: False
        with pre have "0 \<le> pos ! (b - 1)"
          "pos ! (b - 1) + uint (?cs ! (b - 1)) \<le> int (length ?cells)" by simp_all
        from Enumerate_locals(2)[OF fit _ bk this] nz show ?thesis by simp
      qed
    qed
    from prev_end_bounds[OF pre] have "0 \<le> min_start ?cs b pos" by simp
    then have "nat (int (length ?cells) - min_start ?cs b pos) \<le> width"
      using wid by simp
    from "1.IH"[OF False ng fit, of depth width] this len lt pre loc dep wid
    have "Enumerate_for_bounded depth width width e b (Enumerate_prevSpaceStart e b pos)
            (Enumerate_start e b pos) (pos, accumulator, bFirst) =
          Some (Enumerate_for e b (Enumerate_prevSpaceStart e b pos)
            (Enumerate_start e b pos) (pos, accumulator, bFirst))"
      by simp
    with False ng eq beq show ?thesis by simp
  qed
next
  case (2 e b prevSpaceStart i pos accumulator bFirst)
  let ?cs = "m_vecConst e" and ?cells = "m_vecCells e"
  note eq = Enumerate_for.simps[of e b prevSpaceStart i pos accumulator bFirst]
  note beq = Enumerate_for_bounded.simps[of depth width left e b prevSpaceStart i
                pos accumulator bFirst]
  from "2.prems" have fit: "fits_int e" and len: "length pos = length ?cs"
    and lt: "b < length ?cs"
    and pre: "\<forall>j<b. 0 \<le> pos ! j \<and> pos ! j + uint (?cs ! j) \<le> int (length ?cells)"
    and lo: "prevSpaceStart = prev_end ?cs b pos" and st: "min_start ?cs b pos \<le> i"
    and dep: "length ?cs - b \<le> depth" and wid: "length ?cells \<le> width"
    and lef: "nat (int (length ?cells) - i) \<le> left"
    by simp_all
  have ng: "\<not> (length ?cs \<le> b \<or> length pos \<le> b)" using lt len by simp
  show ?case
  proof (cases "i < int (length ?cells)")
    case False
    with ng eq beq show ?thesis by simp
  next
    case iN: True
    with lef have l0: "left \<noteq> 0" and lef1: "nat (int (length ?cells) - (i + 1)) \<le> left - 1"
      by linarith+
    from dep lt have d0: "depth \<noteq> 0" and dep1: "length ?cs - (b + 1) \<le> depth - 1"
      by linarith+
    from prev_end_bounds[OF pre] st lo have lo0: "0 \<le> prevSpaceStart" "prevSpaceStart \<le> i"
      by simp_all
    from Enumerate_checks_eq[OF fit lt lo0 iN]
    have ch: "Enumerate_checks e b prevSpaceStart i =
                Inr (\<not> block_ok ?cells ?cs b prevSpaceStart i)" .
    let ?pos1 = "pos[b := i]"
    have t1: "take b ?pos1 = take b pos" by simp
    have len1: "length ?pos1 = length ?cs" using len by simp
    have pre1: "\<forall>j<b. 0 \<le> ?pos1 ! j \<and> ?pos1 ! j + uint (?cs ! j) \<le> int (length ?cells)"
      using pre by simp
    have lo1: "prevSpaceStart = prev_end ?cs b ?pos1"
      using lo prev_end_cong[OF t1, of ?cs] by simp
    have st1: "min_start ?cs b ?pos1 \<le> i + 1"
      using st min_start_cong[OF t1, of ?cs] by simp
    show ?thesis
    proof (cases "block_ok ?cells ?cs b prevSpaceStart i")
      case False
      from "2.IH"(1)[OF ng iN ch _ fit, of depth "left - 1"]
        False len1 lt pre1 lo1 st1 dep wid lef1
      have "Enumerate_for_bounded depth width (left - 1) e b prevSpaceStart (i + 1)
              (?pos1, accumulator, bFirst) =
            Some (Enumerate_for e b prevSpaceStart (i + 1) (?pos1, accumulator, bFirst))"
        by simp
      with ng iN ch False l0 eq beq show ?thesis by simp
    next
      case ok: True
      then have fits_i: "i + uint (?cs ! b) \<le> int (length ?cells)"
        by (simp add: block_ok_def)
      from lo0 have i0: "0 \<le> i" by simp
      have pre2: "\<forall>j<b + 1. 0 \<le> ?pos1 ! j \<and> ?pos1 ! j + uint (?cs ! j) \<le> int (length ?cells)"
      proof (intro allI impI)
        fix j assume "j < b + 1"
        show "0 \<le> ?pos1 ! j \<and> ?pos1 ! j + uint (?cs ! j) \<le> int (length ?cells)"
        proof (cases "j = b")
          case True
          with fits_i i0 lt len show ?thesis by simp
        next
          case False
          with \<open>j < b + 1\<close> have "j < b" by simp
          with pre1 show ?thesis by blast
        qed
      qed
      from lt have bk1: "b + 1 \<le> length ?cs" by simp
      from "2.IH"(2)[OF ng iN ch _ fit, of "depth - 1"] ok len1 bk1 pre2 dep1 wid
      have r2: "Enumerate_bounded (depth - 1) width e (b + 1) (?pos1, accumulator, bFirst) =
                Some (Enumerate e (b + 1) (?pos1, accumulator, bFirst))"
        by simp
      show ?thesis
      proof (cases "Enumerate e (b + 1) (?pos1, accumulator, bFirst)")
        case (Inl f)
        with r2 ng iN ch ok l0 d0 eq beq show ?thesis by simp
      next
        case (Inr st2)
        from Enumerate_pos_frame(1)[OF Inr]
        have l2: "length (fst st2) = length ?cs"
          and t2: "take (b + 1) (fst st2) = take (b + 1) ?pos1"
          using len1 by simp_all
        have "take b (take (b + 1) (fst st2)) = take b (take (b + 1) ?pos1)" using t2 by simp
        then have tb2: "take b (fst st2) = take b pos" by (simp add: min_def)
        have pre3: "\<forall>j<b. 0 \<le> fst st2 ! j \<and>
                      fst st2 ! j + uint (?cs ! j) \<le> int (length ?cells)"
        proof (intro allI impI)
          fix j assume j: "j < b"
          then have "take b (fst st2) ! j = fst st2 ! j" "take b pos ! j = pos ! j" by simp_all
          with tb2 have "fst st2 ! j = pos ! j" by simp
          with pre j show "0 \<le> fst st2 ! j \<and>
                      fst st2 ! j + uint (?cs ! j) \<le> int (length ?cells)" by simp
        qed
        have lo2: "prevSpaceStart = prev_end ?cs b (fst st2)"
          using lo prev_end_cong[OF tb2, of ?cs] by simp
        have st2': "min_start ?cs b (fst st2) \<le> i + 1"
          using st min_start_cong[OF tb2, of ?cs] by simp
        from "2.IH"(3)[OF ng iN ch _ Inr fit l2 lt pre3 lo2 st2' dep wid lef1, of ] ok
        have "Enumerate_for_bounded depth width (left - 1) e b prevSpaceStart (i + 1) st2 =
              Some (Enumerate_for e b prevSpaceStart (i + 1) st2)"
          by simp
        with Inr r2 ng iN ch ok l0 d0 eq beq show ?thesis by simp
      qed
    qed
  qed
qed

section \<open>Lines without a placement\<close>





section \<open>What one call writes\<close>

text \<open>
  Claim C2. A call of \<open>Infer\<close> that returns leaves the number of cells unchanged, and
  every cell either keeps its value or goes from \<^verbatim>\<open>ts_dontknow\<close> to a concrete
  value: no cell goes from filled to empty or back. \<open>Assign\<close> on a concrete cell with
  another value throws and writes nothing, and \<open>Infer\<close> returns the status \<open>-1\<close>
  exactly when some value of the accumulator differs from the concrete cell it is
  meant for.
\<close>

theorem Infer_monotonic:
  assumes "Infer e = Inr (status, e')"
  shows "length (m_vecCells e') = length (m_vecCells e) \<and>
         (\<forall>i < length (m_vecCells e).
            m_vecCells e' ! i = m_vecCells e ! i \<or>
            (m_vecCells e ! i = ts_dontknow \<and> m_vecCells e' ! i \<noteq> ts_dontknow)) \<and>
         (\<forall>c v idx. m_vecCells e ! c \<noteq> ts_dontknow \<and> m_vecCells e ! c \<noteq> v \<longrightarrow>
            Assign e c v idx = Inl (Thrown (- 1))) \<and>
         (\<forall>pos acc bFirst.
            Enumerate e 0 (replicate (length (m_vecConst e)) 0,
              replicate (length (m_vecCells e)) ts_dontknow, True) = Inr (pos, acc, bFirst) \<longrightarrow>
            (status = - 1) =
            (\<exists>i < length (m_vecCells e). acc ! i \<noteq> ts_dontknow \<and>
               m_vecCells e ! i \<noteq> ts_dontknow \<and> m_vecCells e ! i \<noteq> acc ! i))"
proof -
  let ?N = "length (m_vecCells e)"
  from Infer_InrD[OF assms] obtain pos acc bf r where
    en: "Enumerate e 0 (replicate (length (m_vecConst e)) 0, replicate ?N ts_dontknow, True)
           = Inr (pos, acc, bf)"
    and sv: "Infer_save e acc 0 ?N = (e', r)"
    and st: "r = None \<and> status = 0 \<or> (\<exists>x. r = Some (Thrown x)) \<and> status = - 1"
    by blast
  have len: "length (m_vecCells e') = ?N"
    using Infer_save_frame[OF sv] by simp
  have mono: "m_vecCells e' ! i = m_vecCells e ! i \<or>
            (m_vecCells e ! i = ts_dontknow \<and> m_vecCells e' ! i \<noteq> ts_dontknow)" for i
    using Infer_save_cells[OF sv, of i] by auto
  have asg: "Assign e c v idx = Inl (Thrown (- 1))"
    if "m_vecCells e ! c \<noteq> ts_dontknow \<and> m_vecCells e ! c \<noteq> v" for c v idx
    using that by (simp add: Assign_def)
  have iff: "(status = - 1) =
            (\<exists>i < ?N. acc ! i \<noteq> ts_dontknow \<and>
               m_vecCells e ! i \<noteq> ts_dontknow \<and> m_vecCells e ! i \<noteq> acc ! i)"
  proof (cases r)
    case None
    with st have s0: "status = 0" by auto
    have "\<not> (acc ! i \<noteq> ts_dontknow \<and>
               m_vecCells e ! i \<noteq> ts_dontknow \<and> m_vecCells e ! i \<noteq> acc ! i)" if "i < ?N" for i
      using Infer_save_None[OF sv[unfolded None] le_refl _ that, of ] mono[of i] by auto
    with s0 show ?thesis by auto
  next
    case (Some f)
    with st have s1: "status = - 1" by auto
    from Infer_save_Some[OF sv[unfolded Some] le_refl] st Some
    obtain c where "c < ?N" "acc ! c \<noteq> ts_dontknow" "m_vecCells e ! c \<noteq> acc ! c"
      "m_vecCells e ! c \<noteq> ts_dontknow" by auto
    with s1 show ?thesis by auto
  qed
  from en iff have last: "\<forall>pos' acc' bFirst'.
            Enumerate e 0 (replicate (length (m_vecConst e)) 0,
              replicate ?N ts_dontknow, True) = Inr (pos', acc', bFirst') \<longrightarrow>
            (status = - 1) =
            (\<exists>i < ?N. acc' ! i \<noteq> ts_dontknow \<and>
               m_vecCells e ! i \<noteq> ts_dontknow \<and> m_vecCells e ! i \<noteq> acc' ! i)"
    by simp
  from len mono asg last show ?thesis by blast
qed

theorem Infer_monotonic_witness:
  "Infer \<lparr>m_vecConst = [2], m_vecCells = [ts_true, ts_dontknow, ts_dontknow],
       m_bSelfChanged = False, m_vecChanged = [False, False, False]\<rparr>
     = Inr (0, \<lparr>m_vecConst = [2], m_vecCells = [ts_true, ts_true, ts_false],
       m_bSelfChanged = True, m_vecChanged = [False, True, True]\<rparr>) \<and>
   length [ts_true, ts_true, ts_false] = length [ts_true, ts_dontknow, ts_dontknow] \<and>
   Assign \<lparr>m_vecConst = [2], m_vecCells = [ts_true, ts_dontknow, ts_dontknow],
       m_bSelfChanged = False, m_vecChanged = [False, False, False]\<rparr> 0 ts_false 0
     = Inl (Thrown (- 1))"
proof -
  let ?e = "\<lparr>m_vecConst = [2], m_vecCells = [ts_true, ts_dontknow, ts_dontknow],
       m_bSelfChanged = False, m_vecChanged = [False, False, False]\<rparr>"
  have h: "Infer ?e
     = Inr (0, \<lparr>m_vecConst = [2], m_vecCells = [ts_true, ts_true, ts_false],
       m_bSelfChanged = True, m_vecChanged = [False, True, True]\<rparr>)"
    by code_simp
  from Infer_monotonic[OF h]
  have "m_vecCells ?e ! 0 \<noteq> ts_dontknow \<and> m_vecCells ?e ! 0 \<noteq> ts_false \<longrightarrow>
          Assign ?e 0 ts_false 0 = Inl (Thrown (- 1))"
    by blast
  with h show ?thesis by simp
qed

text \<open>
  Claim C7, as the code has it. \<open>Infer\<close> never clears a flag: after the call
  \<^verbatim>\<open>m_vecChanged[i]\<close> holds when it held before or cell \<open>i\<close> was written by this
  call, every written cell has a flag, and \<^verbatim>\<open>m_bSelfChanged\<close> holds when it held
  before or some cell was written by this call.
\<close>

theorem Infer_flags_kept:
  assumes "Infer e = Inr (status, e')"
  shows "length (m_vecChanged e') = length (m_vecChanged e) \<and>
         (\<forall>i < length (m_vecChanged e).
            m_vecChanged e' ! i =
              (m_vecChanged e ! i \<or> m_vecCells e' ! i \<noteq> m_vecCells e ! i)) \<and>
         (\<forall>i. m_vecCells e' ! i \<noteq> m_vecCells e ! i \<longrightarrow> i < length (m_vecChanged e)) \<and>
         m_bSelfChanged e' = (m_bSelfChanged e \<or> m_vecCells e' \<noteq> m_vecCells e)"
proof -
  from Infer_InrD[OF assms] obtain acc r where
    sv: "Infer_save e acc 0 (length (m_vecCells e)) = (e', r)"
    by blast
  from Infer_save_flags[OF sv le_refl] Infer_save_frame[OF sv] show ?thesis by blast
qed

theorem Infer_flags_kept_witness:
  "Infer \<lparr>m_vecConst = [2], m_vecCells = [ts_true, ts_dontknow, ts_dontknow],
       m_bSelfChanged = False, m_vecChanged = [True, False, False]\<rparr>
     = Inr (0, \<lparr>m_vecConst = [2], m_vecCells = [ts_true, ts_true, ts_false],
       m_bSelfChanged = True, m_vecChanged = [True, True, True]\<rparr>) \<and>
   length [True, True, True] = length [True, False, False]"
proof -
  have h: "Infer \<lparr>m_vecConst = [2], m_vecCells = [ts_true, ts_dontknow, ts_dontknow],
       m_bSelfChanged = False, m_vecChanged = [True, False, False]\<rparr>
     = Inr (0, \<lparr>m_vecConst = [2], m_vecCells = [ts_true, ts_true, ts_false],
       m_bSelfChanged = True, m_vecChanged = [True, True, True]\<rparr>)"
    by code_simp
  from Infer_flags_kept[OF h] h show ?thesis by simp
qed

text \<open>
  Claim C7 as stated fails: a solved line whose flags are set keeps them set, although
  the call writes no cell.
\<close>

theorem Infer_flags_not_reset:
  "Infer \<lparr>m_vecConst = [1], m_vecCells = [ts_true],
       m_bSelfChanged = True, m_vecChanged = [True]\<rparr>
     = Inr (0, \<lparr>m_vecConst = [1], m_vecCells = [ts_true],
       m_bSelfChanged = True, m_vecChanged = [True]\<rparr>)"
  by code_simp

text \<open>
  Claim C10. When \<open>Infer\<close> returns \<open>-1\<close> there is a first index \<open>c\<close> at which the
  accumulator contradicts a concrete cell. Below \<open>c\<close> every cell holds the
  accumulator's value where the accumulator has one and its old value elsewhere; from
  \<open>c\<close> on every cell holds its old value.
\<close>

theorem Infer_contradiction_prefix:
  assumes "Enumerate e 0 (replicate (length (m_vecConst e)) 0,
              replicate (length (m_vecCells e)) ts_dontknow, True) = Inr (pos, acc, bFirst)"
    and "Infer e = Inr (- 1, e')"
  shows "\<exists>c < length (m_vecCells e).
           acc ! c \<noteq> ts_dontknow \<and> m_vecCells e ! c \<noteq> ts_dontknow \<and>
           m_vecCells e ! c \<noteq> acc ! c \<and>
           (\<forall>i < c. acc ! i = ts_dontknow \<or> m_vecCells e ! i = ts_dontknow \<or>
                   m_vecCells e ! i = acc ! i) \<and>
           (\<forall>i < c. m_vecCells e' ! i = m_vecCells e ! i \<or> m_vecCells e' ! i = acc ! i) \<and>
           (\<forall>i < c. m_vecCells e' ! i =
                      (if acc ! i = ts_dontknow then m_vecCells e ! i else acc ! i)) \<and>
           (\<forall>i. c \<le> i \<longrightarrow> m_vecCells e' ! i = m_vecCells e ! i)"
proof -
  let ?N = "length (m_vecCells e)"
  from Infer_InrD[OF assms(2)] assms(1) obtain x where
    sv: "Infer_save e acc 0 ?N = (e', Some (Thrown x))"
    by auto
  from Infer_save_Some[OF sv le_refl] obtain c where c: "c < ?N" "acc ! c \<noteq> ts_dontknow"
    "m_vecCells e ! c \<noteq> acc ! c" "m_vecCells e ! c \<noteq> ts_dontknow"
    "\<forall>i. c \<le> i \<longrightarrow> m_vecCells e' ! i = m_vecCells e ! i"
    "\<forall>i. i < c \<and> acc ! i \<noteq> ts_dontknow \<longrightarrow> m_vecCells e' ! i = acc ! i"
    by auto
  have cells: "m_vecCells e' ! i = m_vecCells e ! i \<or>
         (m_vecCells e ! i = ts_dontknow \<and> acc ! i \<noteq> ts_dontknow \<and>
          m_vecCells e' ! i = acc ! i)" for i
    using Infer_save_cells[OF sv, of i] by auto
  have a: "\<forall>i < c. acc ! i = ts_dontknow \<or> m_vecCells e ! i = ts_dontknow \<or>
                   m_vecCells e ! i = acc ! i"
    using c(6) cells by metis
  have b: "\<forall>i < c. m_vecCells e' ! i = m_vecCells e ! i \<or> m_vecCells e' ! i = acc ! i"
    using cells by metis
  have d: "\<forall>i < c. m_vecCells e' ! i =
                      (if acc ! i = ts_dontknow then m_vecCells e ! i else acc ! i)"
    using c(6) cells by auto
  from c(1-5) a b d show ?thesis by blast
qed

theorem Infer_contradiction_prefix_witness:
  "Infer \<lparr>m_vecConst = [], m_vecCells = [ts_dontknow, ts_true, ts_dontknow],
       m_bSelfChanged = False, m_vecChanged = [False, False, False]\<rparr>
     = Inr (- 1, \<lparr>m_vecConst = [], m_vecCells = [ts_false, ts_true, ts_dontknow],
       m_bSelfChanged = True, m_vecChanged = [True, False, False]\<rparr>) \<and>
   (\<exists>c. c < length [ts_dontknow, ts_true, ts_dontknow] \<and>
        [ts_false, ts_false, ts_false] ! c \<noteq> ts_dontknow \<and>
        [ts_dontknow, ts_true, ts_dontknow] ! c \<noteq> ts_dontknow \<and>
        [ts_dontknow, ts_true, ts_dontknow] ! c \<noteq> [ts_false, ts_false, ts_false] ! c)"
proof -
  let ?e = "\<lparr>m_vecConst = [], m_vecCells = [ts_dontknow, ts_true, ts_dontknow],
       m_bSelfChanged = False, m_vecChanged = [False, False, False]\<rparr>"
  have h1: "Enumerate ?e 0 (replicate (length (m_vecConst ?e)) 0,
              replicate (length (m_vecCells ?e)) ts_dontknow, True)
            = Inr ([], [ts_false, ts_false, ts_false], False)"
    by code_simp
  have h2: "Infer ?e = Inr (- 1, \<lparr>m_vecConst = [], m_vecCells = [ts_false, ts_true, ts_dontknow],
       m_bSelfChanged = True, m_vecChanged = [True, False, False]\<rparr>)"
    by code_simp
  from Infer_contradiction_prefix[OF h1 h2] obtain c where
    "c < length [ts_dontknow, ts_true, ts_dontknow] \<and>
        [ts_false, ts_false, ts_false] ! c \<noteq> ts_dontknow \<and>
        [ts_dontknow, ts_true, ts_dontknow] ! c \<noteq> ts_dontknow \<and>
        [ts_dontknow, ts_true, ts_dontknow] ! c \<noteq> [ts_false, ts_false, ts_false] ! c"
    by auto
  with h2 show ?thesis by blast
qed

theorem Infer_sound_witness:
  "fits_int \<lparr>m_vecConst = [2], m_vecCells = [ts_true, ts_dontknow, ts_dontknow],
       m_bSelfChanged = False, m_vecChanged = [False, False, False]\<rparr> \<and>
   Infer \<lparr>m_vecConst = [2], m_vecCells = [ts_true, ts_dontknow, ts_dontknow],
       m_bSelfChanged = False, m_vecChanged = [False, False, False]\<rparr>
     = Inr (0, \<lparr>m_vecConst = [2], m_vecCells = [ts_true, ts_true, ts_false],
       m_bSelfChanged = True, m_vecChanged = [False, True, True]\<rparr>) \<and>
   spec_forced [ts_true, ts_dontknow, ts_dontknow] [2] 1 = ts_true \<and>
   spec_forced [ts_true, ts_dontknow, ts_dontknow] [2] 2 = ts_false"
proof -
  let ?e = "\<lparr>m_vecConst = [2], m_vecCells = [ts_true, ts_dontknow, ts_dontknow],
       m_bSelfChanged = False, m_vecChanged = [False, False, False]\<rparr>"
  let ?e' = "\<lparr>m_vecConst = [2], m_vecCells = [ts_true, ts_true, ts_false],
       m_bSelfChanged = True, m_vecChanged = [False, True, True]\<rparr>"
  have f: "fits_int ?e" by (simp add: fits_int_def)
  have h: "Infer ?e = Inr (0, ?e')" by code_simp
  from Infer_sound[OF f h]
  have "\<forall>x < length (m_vecCells ?e). m_vecCells ?e' ! x =
              (if spec_forced (m_vecCells ?e) (m_vecConst ?e) x = ts_dontknow
               then m_vecCells ?e ! x
               else spec_forced (m_vecCells ?e) (m_vecConst ?e) x)"
    by blast
  note ov = this[rule_format]
  have "m_vecCells ?e' ! 1 =
              (if spec_forced (m_vecCells ?e) (m_vecConst ?e) 1 = ts_dontknow
               then m_vecCells ?e ! 1
               else spec_forced (m_vecCells ?e) (m_vecConst ?e) 1)"
    "m_vecCells ?e' ! 2 =
              (if spec_forced (m_vecCells ?e) (m_vecConst ?e) 2 = ts_dontknow
               then m_vecCells ?e ! 2
               else spec_forced (m_vecCells ?e) (m_vecConst ?e) 2)"
    by (rule ov, simp)+
  then have "spec_forced [ts_true, ts_dontknow, ts_dontknow] [2] 1 = ts_true"
    "spec_forced [ts_true, ts_dontknow, ts_dontknow] [2] 2 = ts_false"
    by (simp_all split: if_splits)
  with f h show ?thesis by simp
qed

lemma no_placement_forced:
  "\<forall>pos. \<not> spec_valid cells cs pos \<Longrightarrow> spec_forced cells cs x = ts_dontknow"
  by (simp add: spec_forced_def)

text \<open>
  Claim C1 as stated fails for the empty constraint: the single empty placement is
  folded without a check against the cells. With a filled cell on the line no
  placement is valid and the intersection forces nothing, yet \<open>Infer\<close> writes
  \<^verbatim>\<open>ts_false\<close> into the unknown cell before the filled one and then reports the
  contradiction.
\<close>

theorem Infer_commits_without_placement:
  "Infer \<lparr>m_vecConst = [], m_vecCells = [ts_dontknow, ts_true],
       m_bSelfChanged = False, m_vecChanged = [False, False]\<rparr>
     = Inr (- 1, \<lparr>m_vecConst = [], m_vecCells = [ts_false, ts_true],
       m_bSelfChanged = True, m_vecChanged = [True, False]\<rparr>) \<and>
   spec_forced [ts_dontknow, ts_true] [] 0 = ts_dontknow"
proof -
  have "\<not> spec_valid [ts_dontknow, ts_true] [] pos" for pos
  proof
    assume "spec_valid [ts_dontknow, ts_true] [] pos"
    then have "spec_consistent [ts_dontknow, ts_true]
                 (spec_materialize (length [ts_dontknow, ts_true]) [] pos)"
      unfolding spec_valid_def by blast
    then have "1 < length [ts_dontknow, ts_true] \<longrightarrow>
               [ts_dontknow, ts_true] ! 1 = ts_dontknow \<or>
               [ts_dontknow, ts_true] ! 1 =
               spec_materialize (length [ts_dontknow, ts_true]) [] pos ! 1"
      unfolding spec_consistent_def by blast
    then show False by (simp add: materialize_no_blocks)
  qed
  then have "spec_forced [ts_dontknow, ts_true] [] 0 = ts_dontknow"
    by (intro no_placement_forced) simp
  moreover have "Infer \<lparr>m_vecConst = [], m_vecCells = [ts_dontknow, ts_true],
       m_bSelfChanged = False, m_vecChanged = [False, False]\<rparr>
     = Inr (- 1, \<lparr>m_vecConst = [], m_vecCells = [ts_false, ts_true],
       m_bSelfChanged = True, m_vecChanged = [True, False]\<rparr>)"
    by code_simp
  ultimately show ?thesis by simp
qed

section \<open>Calling Infer twice\<close>

lemma Infer_unfold:
  assumes "fits_int e"
  shows "Infer e =
    (case Infer_save e
            (fst (folded e (replicate (length (m_vecCells e)) ts_dontknow, True)
                    (reach (m_vecCells e) (m_vecConst e) 0
                       (replicate (length (m_vecConst e)) 0))))
            0 (length (m_vecCells e)) of
       (e', None) \<Rightarrow> Inr (0, e')
     | (e', Some (Thrown x)) \<Rightarrow> Inr (- 1, e')
     | (e', Some OutOfBounds) \<Rightarrow> Inl OutOfBounds)"
proof -
  let ?s = "folded e (replicate (length (m_vecCells e)) ts_dontknow, True)
                    (reach (m_vecCells e) (m_vecConst e) 0
                       (replicate (length (m_vecConst e)) 0))"
  obtain acc bf where s: "?s = (acc, bf)" by (cases ?s)
  from Enumerate_Infer[OF assms] obtain pos where
    "Enumerate e 0 (replicate (length (m_vecConst e)) 0,
                   replicate (length (m_vecCells e)) ts_dontknow, True) = Inr (pos, ?s)" ..
  then have en: "Enumerate e 0 (replicate (length (m_vecConst e)) 0,
                   replicate (length (m_vecCells e)) ts_dontknow, True) =
             Inr (pos, acc, bf)" unfolding s .
  have "Infer e =
    (case Infer_save e acc 0 (length (m_vecCells e)) of
       (e', None) \<Rightarrow> Inr (0, e')
     | (e', Some (Thrown x)) \<Rightarrow> Inr (- 1, e')
     | (e', Some OutOfBounds) \<Rightarrow> Inl OutOfBounds)"
    unfolding Infer_def en by simp
  then show ?thesis unfolding s by simp
qed

lemma Infer_save_noop:
  assumes "\<forall>x. i \<le> x \<and> x < n \<longrightarrow> acc ! x = ts_dontknow \<or> m_vecCells e ! x = acc ! x"
  shows "Infer_save e acc i n = (e, None)"
proof -
  obtain e' r where run: "Infer_save e acc i n = (e', r)"
    by (cases "Infer_save e acc i n")
  have "(\<forall>x. i \<le> x \<and> x < n \<longrightarrow> acc ! x = ts_dontknow \<or> m_vecCells e ! x = acc ! x) \<longrightarrow>
        e' = e \<and> r = None"
    using run
  proof (induction rule: Infer_save_induct)
    case (stop e i)
    show ?case by simp
  next
    case (skip e i e' r)
    then show ?case by simp
  next
    case (conflict e i f)
    from Assign_cases[OF conflict(2), of e i i] conflict(2,3)
    have "m_vecCells e ! i \<noteq> acc ! i" by auto
    with conflict(1,2) show ?case by auto
  next
    case (store e i e1 e' r)
    then have "m_vecCells e ! i \<noteq> acc ! i" by auto
    with store(1,2) show ?case by auto
  qed
  with assms run show ?thesis by simp
qed

lemma spec_valid_refined:
  assumes len: "length cells' = length cells"
    and ov: "\<forall>x < length cells. cells' ! x =
              (if spec_forced cells cs x = ts_dontknow then cells ! x
               else spec_forced cells cs x)"
  shows "spec_valid cells' cs p = spec_valid cells cs p"
proof
  assume v: "spec_valid cells' cs p"
  then have pl: "spec_placement cs (length cells) p"
    and co: "spec_consistent cells' (spec_materialize (length cells) cs p)"
    using len by (simp_all add: spec_valid_def)
  have "cells ! x = ts_dontknow \<or> cells ! x = spec_materialize (length cells) cs p ! x"
    if x: "x < length cells" for x
  proof (cases "spec_forced cells cs x = ts_dontknow")
    case True
    with ov x have "cells' ! x = cells ! x" by simp
    with co x len show ?thesis by (auto simp: spec_consistent_def)
  next
    case False
    with ov x have c': "cells' ! x = spec_forced cells cs x" by simp
    with False co x len have "spec_forced cells cs x = spec_materialize (length cells) cs p ! x"
      by (auto simp: spec_consistent_def)
    with spec_forced_consistent[OF False x] show ?thesis by simp
  qed
  with pl show "spec_valid cells cs p" by (simp add: spec_valid_def spec_consistent_def)
next
  assume v: "spec_valid cells cs p"
  then have pl: "spec_placement cs (length cells) p"
    and co: "spec_consistent cells (spec_materialize (length cells) cs p)"
    by (simp_all add: spec_valid_def)
  have "cells' ! x = ts_dontknow \<or> cells' ! x = spec_materialize (length cells) cs p ! x"
    if x: "x < length cells" for x
  proof (cases "spec_forced cells cs x = ts_dontknow")
    case True
    with ov x have "cells' ! x = cells ! x" by simp
    with co x show ?thesis by (auto simp: spec_consistent_def)
  next
    case False
    with ov x have "cells' ! x = spec_forced cells cs x" by simp
    with spec_forced_concrete(2)[OF False v] show ?thesis by simp
  qed
  with pl len show "spec_valid cells' cs p" by (simp add: spec_valid_def spec_consistent_def)
qed

lemma spec_forced_refined:
  assumes "length cells' = length cells"
    and "\<forall>x < length cells. cells' ! x =
              (if spec_forced cells cs x = ts_dontknow then cells ! x
               else spec_forced cells cs x)"
  shows "spec_forced cells' cs x = spec_forced cells cs x"
  unfolding spec_forced_def spec_valid_refined[OF assms] assms(1) ..

text \<open>
  Claim C6, as the code has it. After a call that returned 0, a second call returns 0
  and leaves the engine exactly as the first call left it: the cells are the same and
  no flag is set or cleared, so the flags still show the changes of the first call.
\<close>

theorem Infer_twice:
  assumes "fits_int e" and "Infer e = Inr (0, e')"
  shows "Infer e' = Inr (0, e')"
proof -
  let ?cells = "m_vecCells e" and ?cs = "m_vecConst e"
  let ?N = "length ?cells"
  from Infer_InrD[OF assms(2)] obtain acc where sv: "Infer_save e acc 0 ?N = (e', None)"
    by auto
  from Infer_save_frame[OF sv] have cs': "m_vecConst e' = ?cs"
    and len': "length (m_vecCells e') = ?N" by simp_all
  have fit': "fits_int e'" using assms(1) cs' len' by (simp add: fits_int_def)
  let ?acc2 = "fst (folded e' (replicate (length (m_vecCells e')) ts_dontknow, True)
                    (reach (m_vecCells e') (m_vecConst e') 0
                       (replicate (length (m_vecConst e')) 0)))"
  from Infer_committed[OF assms] have ov: "\<forall>x < ?N. m_vecCells e' ! x =
              (if spec_forced ?cells ?cs x = ts_dontknow then ?cells ! x
               else spec_forced ?cells ?cs x)"
    by blast
  have "?acc2 ! x = ts_dontknow \<or> m_vecCells e' ! x = ?acc2 ! x" if x: "x < ?N" for x
  proof (cases "?cs = []")
    case True
    from Infer_unfold[OF assms(1)] assms(2)
    have "Infer_save e (fst (folded e (replicate ?N ts_dontknow, True)
                    (reach ?cells ?cs 0 (replicate (length ?cs) 0)))) 0 ?N = (e', None)"
      by (auto split: prod.splits option.splits fault.splits)
    then have "Infer_save e (replicate ?N ts_false) 0 ?N = (e', None)"
      using folded_no_blocks[OF True] by simp
    from Infer_save_None[OF this le_refl _ x] x have "m_vecCells e' ! x = ts_false" by simp
    moreover have "?acc2 = replicate ?N ts_false"
      using folded_no_blocks[of e'] True cs' len' by simp
    ultimately show ?thesis using x by simp
  next
    case False
    then have ne: "m_vecConst e' \<noteq> []" using cs' by simp
    from folded_forced[OF ne, of x] x len' cs'
    have "?acc2 ! x = spec_forced (m_vecCells e') ?cs x" by simp
    also have "\<dots> = spec_forced ?cells ?cs x"
      by (rule spec_forced_refined[OF len' ov])
    finally show ?thesis using ov x by auto
  qed
  then have "\<forall>x. 0 \<le> x \<and> x < length (m_vecCells e') \<longrightarrow>
       ?acc2 ! x = ts_dontknow \<or> m_vecCells e' ! x = ?acc2 ! x"
    using len' by simp
  from Infer_save_noop[OF this] show ?thesis
    unfolding Infer_unfold[OF fit'] by simp
qed

theorem Infer_twice_witness:
  "fits_int \<lparr>m_vecConst = [2], m_vecCells = [ts_true, ts_dontknow, ts_dontknow],
       m_bSelfChanged = False, m_vecChanged = [False, False, False]\<rparr> \<and>
   Infer \<lparr>m_vecConst = [2], m_vecCells = [ts_true, ts_dontknow, ts_dontknow],
       m_bSelfChanged = False, m_vecChanged = [False, False, False]\<rparr>
     = Inr (0, \<lparr>m_vecConst = [2], m_vecCells = [ts_true, ts_true, ts_false],
       m_bSelfChanged = True, m_vecChanged = [False, True, True]\<rparr>) \<and>
   Infer \<lparr>m_vecConst = [2], m_vecCells = [ts_true, ts_true, ts_false],
       m_bSelfChanged = True, m_vecChanged = [False, True, True]\<rparr>
     = Inr (0, \<lparr>m_vecConst = [2], m_vecCells = [ts_true, ts_true, ts_false],
       m_bSelfChanged = True, m_vecChanged = [False, True, True]\<rparr>)"
proof -
  let ?e = "\<lparr>m_vecConst = [2], m_vecCells = [ts_true, ts_dontknow, ts_dontknow],
       m_bSelfChanged = False, m_vecChanged = [False, False, False]\<rparr>"
  have f: "fits_int ?e" by (simp add: fits_int_def)
  have h: "Infer ?e = Inr (0, \<lparr>m_vecConst = [2], m_vecCells = [ts_true, ts_true, ts_false],
       m_bSelfChanged = True, m_vecChanged = [False, True, True]\<rparr>)" by code_simp
  from Infer_twice[OF f h] f h show ?thesis by simp
qed

text \<open>
  Claim C6 as stated fails: \<^verbatim>\<open>m_bSelfChanged\<close>, set by the first call, is still set
  after the second call, which changes nothing.
\<close>

theorem Infer_twice_flag_stays:
  "Infer \<lparr>m_vecConst = [1], m_vecCells = [ts_dontknow],
       m_bSelfChanged = False, m_vecChanged = [False]\<rparr>
     = Inr (0, \<lparr>m_vecConst = [1], m_vecCells = [ts_true],
       m_bSelfChanged = True, m_vecChanged = [True]\<rparr>) \<and>
   Infer \<lparr>m_vecConst = [1], m_vecCells = [ts_true],
       m_bSelfChanged = True, m_vecChanged = [True]\<rparr>
     = Inr (0, \<lparr>m_vecConst = [1], m_vecCells = [ts_true],
       m_bSelfChanged = True, m_vecChanged = [True]\<rparr>)"
  by code_simp

section \<open>The scenarios\<close>

lemma Infer_nothing_forced:
  assumes "fits_int e" "m_vecConst e \<noteq> []"
    and "\<forall>x < length (m_vecCells e). spec_forced (m_vecCells e) (m_vecConst e) x = ts_dontknow"
  shows "Infer e = Inr (0, e)"
proof -
  let ?acc = "fst (folded e (replicate (length (m_vecCells e)) ts_dontknow, True)
                    (reach (m_vecCells e) (m_vecConst e) 0
                       (replicate (length (m_vecConst e)) 0)))"
  have "\<forall>x. 0 \<le> x \<and> x < length (m_vecCells e) \<longrightarrow>
          ?acc ! x = ts_dontknow \<or> m_vecCells e ! x = ?acc ! x"
    using folded_forced[OF assms(2)] assms(3) by simp
  from Infer_save_noop[OF this] show ?thesis
    unfolding Infer_unfold[OF assms(1)] by simp
qed

text \<open>
  Claim C3, as the code has it. With the constraint \<^verbatim>\<open>[2]\<close> and the cells 0, 1 and
  2 filled, no start of the block passes the checks: at start 0 the tail check finds
  cell 2, at every later start the gap check finds cell 0. Nothing is folded, and
  \<open>Infer\<close> returns 0 and leaves the engine as it is, whatever the flags are.
\<close>

theorem scenario5_unsatisfiable:
  assumes "m_vecConst e = [2]"
    and "m_vecCells e = [ts_true, ts_true, ts_true, ts_dontknow, ts_dontknow, ts_dontknow,
                         ts_dontknow, ts_dontknow, ts_dontknow, ts_dontknow]"
  shows "Infer e = Inr (0, e)"
proof -
  let ?cells = "[ts_true, ts_true, ts_true, ts_dontknow, ts_dontknow, ts_dontknow,
                 ts_dontknow, ts_dontknow, ts_dontknow, ts_dontknow]"
  have fit: "fits_int e" using assms by (simp add: fits_int_def)
  have none: "\<not> spec_valid ?cells [2] p" for p
  proof
    assume "spec_valid ?cells [2] p"
    then have co: "spec_consistent ?cells (spec_materialize (length ?cells) [2] p)"
      unfolding spec_valid_def by blast
    have "spec_filled [2] p x" if "x < length ?cells" "?cells ! x = ts_true" for x
    proof -
      from co that(1) have "?cells ! x = ts_dontknow \<or>
          ?cells ! x = spec_materialize (length ?cells) [2] p ! x"
        unfolding spec_consistent_def by blast
      with that show ?thesis
        by (simp only: spec_materialize_nth split: if_splits) simp_all
    qed
    from this[of 0] this[of 2] have "spec_filled [2] p 0" "spec_filled [2] p 2" by simp_all
    then show False by (simp add: spec_filled_def)
  qed
  have "spec_forced (m_vecCells e) (m_vecConst e) x = ts_dontknow" for x
    unfolding assms using none by (intro no_placement_forced) simp
  with Infer_nothing_forced[OF fit] assms(1) show ?thesis by simp
qed

theorem scenario5_unsatisfiable_witness:
  "Infer \<lparr>m_vecConst = [2],
       m_vecCells = [ts_true, ts_true, ts_true, ts_dontknow, ts_dontknow, ts_dontknow,
                     ts_dontknow, ts_dontknow, ts_dontknow, ts_dontknow],
       m_bSelfChanged = True,
       m_vecChanged = [True, True, True, False, False, False, False, False, False, False]\<rparr>
   = Inr (0, \<lparr>m_vecConst = [2],
       m_vecCells = [ts_true, ts_true, ts_true, ts_dontknow, ts_dontknow, ts_dontknow,
                     ts_dontknow, ts_dontknow, ts_dontknow, ts_dontknow],
       m_bSelfChanged = True,
       m_vecChanged = [True, True, True, False, False, False, False, False, False, False]\<rparr>)"
  by (rule scenario5_unsatisfiable) simp_all

text \<open>Claim C3 as stated fails: the status is 0, not -1.\<close>

theorem scenario5_returns_success:
  "Infer \<lparr>m_vecConst = [2],
       m_vecCells = [ts_true, ts_true, ts_true, ts_dontknow, ts_dontknow, ts_dontknow,
                     ts_dontknow, ts_dontknow, ts_dontknow, ts_dontknow],
       m_bSelfChanged = False,
       m_vecChanged = [False, False, False, False, False, False, False, False, False, False]\<rparr>
   = Inr (0, \<lparr>m_vecConst = [2],
       m_vecCells = [ts_true, ts_true, ts_true, ts_dontknow, ts_dontknow, ts_dontknow,
                     ts_dontknow, ts_dontknow, ts_dontknow, ts_dontknow],
       m_bSelfChanged = False,
       m_vecChanged = [False, False, False, False, False, False, False, False, False, False]\<rparr>)"
  by code_simp

lemma spec_forced_mixed:
  assumes "\<not> (\<forall>pos. spec_valid cells cs pos \<longrightarrow>
                 spec_materialize (length cells) cs pos ! x = ts_true)"
    and "\<not> (\<forall>pos. spec_valid cells cs pos \<longrightarrow>
                 spec_materialize (length cells) cs pos ! x = ts_false)"
  shows "spec_forced cells cs x = ts_dontknow"
  using assms unfolding spec_forced_def by (simp only: if_False if_cancel)

text \<open>
  Claim C4, as the code has it. A block of 5 in 10 unknown cells may start at 0 and at
  5; the two placements have no cell in common, so no cell is forced and \<open>Infer\<close>
  returns 0 and leaves the engine as it is.
\<close>

theorem scenario1_nothing_forced:
  assumes "m_vecConst e = [5]"
    and "m_vecCells e = replicate 10 ts_dontknow"
  shows "Infer e = Inr (0, e)"
proof -
  let ?cells = "replicate 10 ts_dontknow"
  have fit: "fits_int e" using assms by (simp add: fits_int_def)
  have v: "spec_valid ?cells [5] [p]" if "0 \<le> p" "p \<le> 5" for p
    using that by (simp add: spec_valid_def spec_placement_def spec_consistent_def)
  have line: "spec_materialize (length ?cells) [5] [p] ! x =
                (if p \<le> int x \<and> int x < p + 5 then ts_true else ts_false)"
    if "x < 10" for x p
    using that by (simp add: spec_materialize_nth spec_filled_def)
  have "spec_forced ?cells [5] x = ts_dontknow" if x: "x < 10" for x
  proof -
    have a: "\<not> (\<forall>pos. spec_valid ?cells [5] pos \<longrightarrow>
                 spec_materialize (length ?cells) [5] pos ! x = ts_true)"
    proof (cases "x < 5")
      case True
      with v[of 5] line[OF x, of 5] show ?thesis by auto
    next
      case False
      with v[of 0] line[OF x, of 0] show ?thesis by auto
    qed
    have b: "\<not> (\<forall>pos. spec_valid ?cells [5] pos \<longrightarrow>
                 spec_materialize (length ?cells) [5] pos ! x = ts_false)"
    proof (cases "x < 5")
      case True
      with v[of 0] line[OF x, of 0] show ?thesis by auto
    next
      case False
      with x v[of 5] line[OF x, of 5] show ?thesis by auto
    qed
    from a b show ?thesis by (rule spec_forced_mixed)
  qed
  then have "\<forall>x < length (m_vecCells e).
     spec_forced (m_vecCells e) (m_vecConst e) x = ts_dontknow"
    unfolding assms by simp
  with Infer_nothing_forced[OF fit] assms(1) show ?thesis by simp
qed

theorem scenario1_nothing_forced_witness:
  "Infer \<lparr>m_vecConst = [5], m_vecCells = replicate 10 ts_dontknow,
       m_bSelfChanged = True, m_vecChanged = replicate 10 False\<rparr>
   = Inr (0, \<lparr>m_vecConst = [5], m_vecCells = replicate 10 ts_dontknow,
       m_bSelfChanged = True, m_vecChanged = replicate 10 False\<rparr>)"
  by (rule scenario1_nothing_forced) simp_all

text \<open>Claim C4 as stated fails: cell 4 is still unknown after the call.\<close>

theorem scenario1_cell4_unknown:
  "Infer \<lparr>m_vecConst = [5],
       m_vecCells = [ts_dontknow, ts_dontknow, ts_dontknow, ts_dontknow, ts_dontknow,
                     ts_dontknow, ts_dontknow, ts_dontknow, ts_dontknow, ts_dontknow],
       m_bSelfChanged = False,
       m_vecChanged = [False, False, False, False, False, False, False, False, False, False]\<rparr>
   = Inr (0, \<lparr>m_vecConst = [5],
       m_vecCells = [ts_dontknow, ts_dontknow, ts_dontknow, ts_dontknow, ts_dontknow,
                     ts_dontknow, ts_dontknow, ts_dontknow, ts_dontknow, ts_dontknow],
       m_bSelfChanged = False,
       m_vecChanged = [False, False, False, False, False, False, False, False, False, False]\<rparr>)"
  by code_simp

section \<open>A block length that wraps around\<close>

text \<open>
  Claim C9 fails in the code. With the block length \<open>2\<^sup>3\<^sup>2 - 1\<close> on a line of two
  cells, the bound \<^verbatim>\<open>i+m_vecConst[b]\<close> of the body loop wraps around to 0 at the
  start \<open>i = 1\<close>: the loop body never runs, the three checks pass, and
  \<open>Accumulate\<close> is called with \<open>pos[0] = 1\<close>. Its inner loop then writes
  \<^verbatim>\<open>tmp[2]\<close>, outside the scratch line.
\<close>

theorem Accumulate_out_of_bounds:
  "Enumerate_checks \<lparr>m_vecConst = [4294967295], m_vecCells = [ts_dontknow, ts_dontknow],
       m_bSelfChanged = False, m_vecChanged = [False, False]\<rparr> 0 0 1 = Inr False \<and>
   Accumulate \<lparr>m_vecConst = [4294967295], m_vecCells = [ts_dontknow, ts_dontknow],
       m_bSelfChanged = False, m_vecChanged = [False, False]\<rparr>
     ([1], [ts_dontknow, ts_dontknow], True) = Inl OutOfBounds \<and>
   Infer \<lparr>m_vecConst = [4294967295], m_vecCells = [ts_dontknow, ts_dontknow],
       m_bSelfChanged = False, m_vecChanged = [False, False]\<rparr> = Inl OutOfBounds"
  by code_simp

section \<open>Termination\<close>

text \<open>
  Claim C8 holds in the code for the lines whose sizes fit an \<^verbatim>\<open>int\<close>, and fails
  outside them (see the end of this section). Every function of the model is total.
  For a line whose sizes fit an \<^verbatim>\<open>int\<close> and whose flag vector has an entry for
  every cell (\<open>Assign\<close> indexes it unchecked), \<open>Infer\<close> returns with status 0 or -1,
  the enumeration returns without a fault, and the enumeration with budgets gives the
  same result with \<open>depth\<close> the number of blocks and \<open>width\<close> the number of cells:
  the recursion is never nested deeper than there are blocks, and no loop makes more
  iterations than there are cells.
\<close>

theorem Infer_terminates:
  assumes "fits_int e" and "length (m_vecCells e) \<le> length (m_vecChanged e)"
  shows "(\<exists>status e'. Infer e = Inr (status, e') \<and> (status = 0 \<or> status = - 1)) \<and>
         (\<exists>st. Enumerate e 0 (replicate (length (m_vecConst e)) 0,
                   replicate (length (m_vecCells e)) ts_dontknow, True) = Inr st) \<and>
         Enumerate_bounded (length (m_vecConst e)) (length (m_vecCells e)) e 0
           (replicate (length (m_vecConst e)) 0,
            replicate (length (m_vecCells e)) ts_dontknow, True) =
         Some (Enumerate e 0 (replicate (length (m_vecConst e)) 0,
                 replicate (length (m_vecCells e)) ts_dontknow, True))"
proof -
  let ?N = "length (m_vecCells e)"
  let ?acc = "fst (folded e (replicate ?N ts_dontknow, True)
                    (reach (m_vecCells e) (m_vecConst e) 0
                       (replicate (length (m_vecConst e)) 0)))"
  obtain e' r where sv: "Infer_save e ?acc 0 ?N = (e', r)"
    by (cases "Infer_save e ?acc 0 ?N")
  have "r \<noteq> Some OutOfBounds"
  proof
    assume "r = Some OutOfBounds"
    from Infer_save_Some[OF sv[unfolded this] le_refl] assms(2) show False by auto
  qed
  then have "r = None \<or> (\<exists>x. r = Some (Thrown x))"
    by (cases r) (auto intro: fault.exhaust)
  then have a: "\<exists>status e'. Infer e = Inr (status, e') \<and> (status = 0 \<or> status = - 1)"
    unfolding Infer_unfold[OF assms(1)] sv by auto
  from Enumerate_Infer[OF assms(1)]
  have b: "\<exists>st. Enumerate e 0 (replicate (length (m_vecConst e)) 0,
                   replicate ?N ts_dontknow, True) = Inr st" by blast
  have c: "Enumerate_bounded (length (m_vecConst e)) ?N e 0
           (replicate (length (m_vecConst e)) 0, replicate ?N ts_dontknow, True) =
         Some (Enumerate e 0 (replicate (length (m_vecConst e)) 0,
                 replicate ?N ts_dontknow, True))"
    by (rule Enumerate_bounded_eq(1)[OF assms(1)]) simp_all
  from a b c show ?thesis by blast
qed

theorem Infer_terminates_witness:
  "fits_int \<lparr>m_vecConst = [1, 1], m_vecCells = [ts_dontknow, ts_dontknow, ts_dontknow],
       m_bSelfChanged = False, m_vecChanged = [False, False, False]\<rparr> \<and>
   Enumerate_bounded 2 3 \<lparr>m_vecConst = [1, 1], m_vecCells = [ts_dontknow, ts_dontknow, ts_dontknow],
       m_bSelfChanged = False, m_vecChanged = [False, False, False]\<rparr> 0
       ([0, 0], [ts_dontknow, ts_dontknow, ts_dontknow], True) =
   Some (Enumerate \<lparr>m_vecConst = [1, 1], m_vecCells = [ts_dontknow, ts_dontknow, ts_dontknow],
       m_bSelfChanged = False, m_vecChanged = [False, False, False]\<rparr> 0
       ([0, 0], [ts_dontknow, ts_dontknow, ts_dontknow], True))"
proof -
  let ?e = "\<lparr>m_vecConst = [1, 1], m_vecCells = [ts_dontknow, ts_dontknow, ts_dontknow],
       m_bSelfChanged = False, m_vecChanged = [False, False, False]\<rparr>"
  have f: "fits_int ?e" by (simp add: fits_int_def)
  have l: "length (m_vecCells ?e) \<le> length (m_vecChanged ?e)" by simp
  from Infer_terminates[OF f l] f show ?thesis by (simp add: numeral_2_eq_2 numeral_3_eq_3)
qed

text \<open>
  Claim C8 fails in the code for a block length that wraps around. With the block
  length \<open>2\<^sup>3\<^sup>2 - 2\<close> on a line of three unknown cells, the starts 0 and 1 are pruned
  by the body check at \<open>j = 3\<close>, but at the start \<open>i = 2\<close> the bound
  \<^verbatim>\<open>i+m_vecConst[b]\<close> wraps around to 0: the body loop never runs, the three checks
  pass, and \<open>Accumulate\<close> is called with \<open>pos[0] = 2\<close>. It writes \<^verbatim>\<open>tmp[3]\<close>,
  outside the scratch line of three cells, and goes on past it. The call of
  \<open>Infer\<close> does not return with success or with a contradiction; the budgets of one
  block and three cells are not what stops it.
\<close>

theorem Infer_wrapped_block_faults:
  "\<not> fits_int \<lparr>m_vecConst = [4294967294], m_vecCells = [ts_dontknow, ts_dontknow, ts_dontknow],
       m_bSelfChanged = False, m_vecChanged = [False, False, False]\<rparr> \<and>
   Enumerate_checks \<lparr>m_vecConst = [4294967294], m_vecCells = [ts_dontknow, ts_dontknow, ts_dontknow],
       m_bSelfChanged = False, m_vecChanged = [False, False, False]\<rparr> 0 0 2 = Inr False \<and>
   Enumerate \<lparr>m_vecConst = [4294967294], m_vecCells = [ts_dontknow, ts_dontknow, ts_dontknow],
       m_bSelfChanged = False, m_vecChanged = [False, False, False]\<rparr> 0
       ([0], [ts_dontknow, ts_dontknow, ts_dontknow], True) = Inl OutOfBounds \<and>
   Enumerate_bounded 1 3 \<lparr>m_vecConst = [4294967294], m_vecCells = [ts_dontknow, ts_dontknow, ts_dontknow],
       m_bSelfChanged = False, m_vecChanged = [False, False, False]\<rparr> 0
       ([0], [ts_dontknow, ts_dontknow, ts_dontknow], True) = Some (Inl OutOfBounds) \<and>
   Infer \<lparr>m_vecConst = [4294967294], m_vecCells = [ts_dontknow, ts_dontknow, ts_dontknow],
       m_bSelfChanged = False, m_vecChanged = [False, False, False]\<rparr> = Inl OutOfBounds"
  by code_simp

end
